theory Spec2Isabelle
  imports Main "HOL-Library.AList"
begin

section \<open>Shared conventions\<close>

text \<open>
  A Python \<^verbatim>\<open>dict\<close> is an association list in insertion order:
  \<^term>\<open>map_of\<close> is the lookup, \<^term>\<open>AList.update\<close> is the assignment
  \<^verbatim>\<open>d[k] = v\<close> (an existing key keeps its position, a new key goes to the
  end) and \<^term>\<open>map fst\<close> lists the keys in iteration order.

  A \<^verbatim>\<open>for\<close> loop whose body may fail to return threads an optional
  state: \<open>None\<close> means that the body did not return.
\<close>

fun for_each :: "('a \<Rightarrow> 's \<Rightarrow> 's option) \<Rightarrow> 'a list \<Rightarrow> 's \<Rightarrow> 's option" where
  "for_each body [] st = Some st"
| "for_each body (x # xs) st =
     (case body x st of None \<Rightarrow> None | Some st' \<Rightarrow> for_each body xs st')"

text \<open>Decimal rendering of a natural number, as an f-string does.\<close>

fun str_nat :: "nat \<Rightarrow> string" where
  "str_nat n =
     (if n < 10 then [char_of (48 + n)]
      else str_nat (n div 10) @ [char_of (48 + n mod 10)])"

declare str_nat.simps [simp del]

text \<open>
  \<^verbatim>\<open>str.lower()\<close> on the ASCII letters. The only use is the comparison with
  the literal \<^verbatim>\<open>"coordinator"\<close>.
\<close>

definition lower_char :: "char \<Rightarrow> char" where
  "lower_char c =
     (if 65 \<le> (of_char c :: nat) \<and> (of_char c :: nat) \<le> 90
      then char_of ((of_char c :: nat) + 32) else c)"

definition lower :: "string \<Rightarrow> string" where
  "lower s = map lower_char s"

section \<open>Agent records (backend/models/agent.py)\<close>

datatype AgentStatus = INACTIVE | RUNNING | ERROR | CONFIGURING

text \<open>
  The columns of \<^verbatim>\<open>Agent\<close> that the dependency manager reads or writes.
  The JSON column \<^verbatim>\<open>dependencies\<close> is read as
  \<^verbatim>\<open>agent.dependencies or []\<close>, so an absent value is kept apart.
\<close>

record Agent =
  agent_id :: int
  agent_name :: string
  agent_status :: AgentStatus
  agent_dependencies :: "string list option"

definition deps_or_empty :: "Agent \<Rightarrow> string list" where
  "deps_or_empty agent =
     (case agent_dependencies agent of None \<Rightarrow> [] | Some deps \<Rightarrow> deps)"

section \<open>Dependency manager (backend/services/dependency_manager.py)\<close>

record DependencyNode =
  name :: string
  ident :: int
  dependencies :: "string list"
  dependents :: "string list"

type_synonym graph = "(string \<times> DependencyNode) list"

record DeletionPlan =
  target_agent :: string
  can_delete_safely :: bool
  dependent_agents :: "string list"
  cascade_deletion_required :: bool
  deletion_order :: "string list"
  warnings :: "string list"

subsection \<open>get_dependency_graph\<close>

definition eligible_agents :: "Agent list \<Rightarrow> Agent list" where
  "eligible_agents db =
     filter (\<lambda>agent. agent_status agent = INACTIVE \<or> agent_status agent = RUNNING) db"

definition build_nodes :: "Agent list \<Rightarrow> graph" where
  "build_nodes agents =
     fold (\<lambda>agent nodes.
             AList.update (agent_name agent)
               \<lparr>name = agent_name agent,
                ident = agent_id agent,
                dependencies =
                  filter (\<lambda>dep. dep \<in> set (map agent_name agents)) (deps_or_empty agent),
                dependents = []\<rparr>
               nodes)
       agents []"

text \<open>\<^verbatim>\<open>if dependency in nodes: nodes[dependency].dependents.append(agent_name)\<close>\<close>

definition add_dependent :: "string \<Rightarrow> string \<Rightarrow> graph \<Rightarrow> graph" where
  "add_dependent agent dependency nodes =
     (case map_of nodes dependency of
        None \<Rightarrow> nodes
      | Some node \<Rightarrow>
          AList.update dependency (node\<lparr>dependents := dependents node @ [agent]\<rparr>) nodes)"

text \<open>
  The loop over \<^verbatim>\<open>nodes.items()\<close> only appends to \<^verbatim>\<open>dependents\<close>
  lists, so the keys and the \<^verbatim>\<open>dependencies\<close> it iterates over are those of
  the graph it started from.
\<close>

definition populate_dependents :: "graph \<Rightarrow> graph" where
  "populate_dependents nodes =
     fold (\<lambda>(agent, node) g. fold (add_dependent agent) (dependencies node) g) nodes nodes"

definition get_dependency_graph :: "Agent list \<Rightarrow> graph" where
  "get_dependency_graph db = populate_dependents (build_nodes (eligible_agents db))"

subsection \<open>detect_circular_dependencies\<close>

record dfs_state =
  circular_deps :: "string list list"
  visited :: "string set"
  path :: "string list"

text \<open>\<^verbatim>\<open>path.index(node_name)\<close>, used only when the name is in the path.\<close>

definition list_index :: "'a list \<Rightarrow> 'a \<Rightarrow> nat" where
  "list_index xs x = length (takeWhile (\<lambda>y. y \<noteq> x) xs)"

text \<open>
  The nested function \<^verbatim>\<open>dfs\<close>. The first argument bounds the depth of the
  recursion; \<open>None\<close> means that the bound was reached before the call returned.
  The interpreter's own limit on the depth of recursion is not part of the model.
\<close>

primrec dfs :: "nat \<Rightarrow> graph \<Rightarrow> string \<Rightarrow> dfs_state \<Rightarrow> dfs_state option" where
  "dfs 0 nodes node_name st = None"
| "dfs (Suc fuel) nodes node_name st =
     (if node_name \<in> set (path st) then
        Some (st\<lparr>circular_deps := circular_deps st @
                 [drop (list_index (path st) node_name) (path st) @ [node_name]]\<rparr>)
      else if node_name \<in> visited st then Some st
      else
        (case (case map_of nodes node_name of
                 None \<Rightarrow>
                   Some (st\<lparr>visited := insert node_name (visited st),
                             path := path st @ [node_name]\<rparr>)
               | Some node \<Rightarrow>
                   for_each (dfs fuel nodes) (dependencies node)
                     (st\<lparr>visited := insert node_name (visited st),
                         path := path st @ [node_name]\<rparr>)) of
           None \<Rightarrow> None
         | Some st' \<Rightarrow> Some (st'\<lparr>path := butlast (path st')\<rparr>)))"

definition detect_circular_dependencies :: "nat \<Rightarrow> graph \<Rightarrow> string list list option" where
  "detect_circular_dependencies fuel nodes =
     map_option circular_deps
       (for_each (dfs fuel nodes) (map fst nodes)
          \<lparr>circular_deps = [], visited = {}, path = []\<rparr>)"

text \<open>
  The dependency relation of a graph, for stating properties: the names that the loop
  of \<^verbatim>\<open>dfs\<close> visits from a node, and the edges \<open>(a, b)\<close> for
  ``\<open>a\<close> is a node and depends on \<open>b\<close>''. A graph has no cycle when the
  relation is \<^const>\<open>acyclic\<close>.
\<close>

definition successors :: "graph \<Rightarrow> string \<Rightarrow> string list" where
  "successors nodes a =
     (case map_of nodes a of None \<Rightarrow> [] | Some node \<Rightarrow> dependencies node)"

definition dependency_edges :: "graph \<Rightarrow> (string \<times> string) set" where
  "dependency_edges nodes = {(a, b). b \<in> set (successors nodes a)}"

subsection \<open>find_orphaned_dependencies\<close>

definition find_orphaned_dependencies :: "graph \<Rightarrow> string list" where
  "find_orphaned_dependencies nodes =
     concat (map (\<lambda>(k, node).
                    map (\<lambda>dependency.
                           name node @ '' depends on non-existent agent: '' @ dependency)
                      (filter (\<lambda>dependency. dependency \<notin> set (map fst nodes))
                         (dependencies node)))
               nodes)"

subsection \<open>_calculate_dependency_chain_length\<close>

text \<open>
  Each recursive call receives \<^verbatim>\<open>visited.copy()\<close>, so the set
  \<open>seen\<close> (the parameter \<^verbatim>\<open>visited\<close>) of a call holds its callers
  only. The first argument bounds the depth of the recursion, as for \<^const>\<open>dfs\<close>.
\<close>

primrec calculate_dependency_chain_length ::
  "nat \<Rightarrow> string \<Rightarrow> graph \<Rightarrow> string set \<Rightarrow> int option" where
  "calculate_dependency_chain_length 0 agent nodes seen = None"
| "calculate_dependency_chain_length (Suc fuel) agent nodes seen =
     (if agent \<in> seen then Some 0
      else
        (case map_of nodes agent of
           None \<Rightarrow> Some 1
         | Some node \<Rightarrow>
             if dependencies node = [] then Some 1
             else
               (case for_each
                       (\<lambda>dependency max_depth.
                          map_option (max max_depth)
                            (calculate_dependency_chain_length fuel dependency nodes
                               (insert agent seen)))
                       (dependencies node) 0 of
                  None \<Rightarrow> None
                | Some max_depth \<Rightarrow> Some (max_depth + 1))))"

subsection \<open>_calculate_cascade_deletion_order\<close>

text \<open>
  The worklist loop that collects \<^verbatim>\<open>affected_agents\<close>:
  \<^verbatim>\<open>to_process.pop()\<close> takes the last element and
  \<^verbatim>\<open>to_process.extend\<close> appends at the end.
\<close>

function collect_affected :: "graph \<Rightarrow> string list \<Rightarrow> string set \<Rightarrow> string set" where
  "collect_affected nodes to_process affected_agents =
     (if to_process = [] then affected_agents
      else if last to_process \<in> affected_agents then
        collect_affected nodes (butlast to_process) affected_agents
      else
        collect_affected nodes
          (butlast to_process @
             (case map_of nodes (last to_process) of
                None \<Rightarrow> []
              | Some node \<Rightarrow> dependents node))
          (insert (last to_process) affected_agents))"
  by pat_completeness auto
termination
  apply (relation "inv_image (finite_psubset <*lex*> less_than)
    (\<lambda>(nodes, to_process, affected_agents).
       ((set to_process \<union> (\<Union>node \<in> ran (map_of nodes). set (dependents node)))
          - affected_agents,
        length to_process))")
  subgoal by auto
  subgoal for nodes to_process affected_agents
  proof -
    assume ne: "to_process \<noteq> []"
    have "set (butlast to_process) \<subseteq> set to_process"
      by (meson in_set_butlastD subsetI)
    then have "(set (butlast to_process) \<union> (\<Union>node \<in> ran (map_of nodes). set (dependents node)))
        - affected_agents
      \<subseteq> (set to_process \<union> (\<Union>node \<in> ran (map_of nodes). set (dependents node)))
        - affected_agents"
      by blast
    moreover have "length (butlast to_process) < length to_process"
      using ne by simp
    ultimately show ?thesis
      by (simp add: finite_psubset_def finite_ran finite_dom_map_of psubset_eq)
  qed
  subgoal for nodes to_process affected_agents
  proof -
    assume ne: "to_process \<noteq> []" and notin: "last to_process \<notin> affected_agents"
    let ?U = "\<Union>node \<in> ran (map_of nodes). set (dependents node)"
    let ?new = "case map_of nodes (last to_process) of None \<Rightarrow> [] | Some node \<Rightarrow> dependents node"
    have fin: "finite ((set to_process \<union> ?U) - affected_agents)"
      by (simp add: finite_ran finite_dom_map_of)
    have new: "set ?new \<subseteq> ?U"
      by (auto simp: ran_def split: option.splits) metis
    have bl: "set (butlast to_process) \<subseteq> set to_process"
      by (meson in_set_butlastD subsetI)
    have sub: "(set (butlast to_process @ ?new) \<union> ?U) - insert (last to_process) affected_agents
        \<subseteq> (set to_process \<union> ?U) - affected_agents"
      using new bl by auto
    have "last to_process \<in> (set to_process \<union> ?U) - affected_agents"
      using ne notin by simp
    then have "(set (butlast to_process @ ?new) \<union> ?U) - insert (last to_process) affected_agents
        \<noteq> (set to_process \<union> ?U) - affected_agents"
      by blast
    with sub fin show ?thesis
      by (simp add: finite_psubset_def psubset_eq)
  qed
  done

declare collect_affected.simps [simp del]

text \<open>
  The accumulators \<^verbatim>\<open>deletion_order\<close> and \<^verbatim>\<open>processed\<close> of the
  nested function \<^verbatim>\<open>add_to_order\<close>.
\<close>

record order_state =
  del_order :: "string list"
  processed :: "string set"

text \<open>
  \<^verbatim>\<open>add_to_order\<close>. The first argument bounds the depth of the recursion;
  \<open>None\<close> means that the bound was reached before the call returned.
\<close>

primrec add_to_order ::
  "nat \<Rightarrow> graph \<Rightarrow> string set \<Rightarrow> string \<Rightarrow> order_state \<Rightarrow> order_state option" where
  "add_to_order 0 nodes affected_agents agent st = None"
| "add_to_order (Suc fuel) nodes affected_agents agent st =
     (if agent \<in> processed st \<or> agent \<notin> affected_agents then Some st
      else
        (case (case map_of nodes agent of
                 None \<Rightarrow> Some st
               | Some node \<Rightarrow>
                   for_each
                     (\<lambda>dependent s.
                        if dependent \<in> affected_agents
                        then add_to_order fuel nodes affected_agents dependent s
                        else Some s)
                     (dependents node) st) of
           None \<Rightarrow> None
         | Some st' \<Rightarrow>
             Some (if agent \<notin> processed st'
                   then st'\<lparr>del_order := del_order st' @ [agent],
                            processed := insert agent (processed st')\<rparr>
                   else st')))"

text \<open>The names that the loop of \<^verbatim>\<open>add_to_order\<close> visits from an agent.\<close>

definition dependents_of :: "graph \<Rightarrow> string \<Rightarrow> string list" where
  "dependents_of nodes a =
     (case map_of nodes a of None \<Rightarrow> [] | Some node \<Rightarrow> dependents node)"

text \<open>
  \<^verbatim>\<open>for agent in affected_agents\<close> iterates over a Python set, in an order
  the language does not fix: \<open>iteration_order\<close> is that order. A name outside
  the set is skipped by the first test of \<^const>\<open>add_to_order\<close>.
\<close>

definition calculate_cascade_deletion_order ::
  "nat \<Rightarrow> string list \<Rightarrow> string \<Rightarrow> graph \<Rightarrow> string list option" where
  "calculate_cascade_deletion_order fuel iteration_order agent nodes =
     map_option del_order
       (for_each (add_to_order fuel nodes (collect_affected nodes [agent] {}))
          iteration_order \<lparr>del_order = [], processed = {}\<rparr>)"

subsection \<open>analyze_deletion_impact\<close>

definition analyze_deletion_impact ::
  "nat \<Rightarrow> string list \<Rightarrow> Agent list \<Rightarrow> string \<Rightarrow> DeletionPlan option" where
  "analyze_deletion_impact fuel iteration_order db agent =
     (case map_of (get_dependency_graph db) agent of
        None \<Rightarrow>
          Some \<lparr>target_agent = agent, can_delete_safely = False, dependent_agents = [],
                cascade_deletion_required = False, deletion_order = [],
                warnings = [''Agent '' @ agent @ '' not found'']\<rparr>
      | Some target_node \<Rightarrow>
          if length (dependents target_node) = 0 then
            Some \<lparr>target_agent = agent, can_delete_safely = True, dependent_agents = [],
                  cascade_deletion_required = False, deletion_order = [agent],
                  warnings = []\<rparr>
          else
            (case calculate_cascade_deletion_order fuel iteration_order agent
                    (get_dependency_graph db) of
               None \<Rightarrow> None
             | Some order_list \<Rightarrow>
                 Some \<lparr>target_agent = agent, can_delete_safely = False,
                       dependent_agents = dependents target_node,
                       cascade_deletion_required = True, deletion_order = order_list,
                       warnings =
                         (if length order_list > 5
                          then [''Cascade deletion would affect '' @
                                str_nat (length order_list) @ '' agents'']
                          else [])\<rparr>))"

subsection \<open>update_agent_dependencies\<close>

datatype update_result =
    UpdateError string
  | CircularError string "string list list"
  | UpdateSuccess "string list" "string list"

text \<open>
  \<^verbatim>\<open>test_nodes = nodes.copy()\<close> copies the dictionary, not the node objects:
  both dictionaries hold the same nodes, and the assignments to
  \<^verbatim>\<open>dependencies\<close> and \<^verbatim>\<open>dependents\<close> that follow are seen through
  either of them. One graph value therefore stands for \<^verbatim>\<open>nodes\<close> and
  \<^verbatim>\<open>test_nodes\<close> after these assignments.
\<close>

definition test_graph :: "graph \<Rightarrow> string \<Rightarrow> DependencyNode \<Rightarrow> string list \<Rightarrow> graph" where
  "test_graph nodes agent node new_dependencies =
     populate_dependents
       (map (\<lambda>(k, n). (k, n\<lparr>dependents := []\<rparr>))
          (AList.update agent (node\<lparr>dependencies := new_dependencies\<rparr>) nodes))"

text \<open>
  \<open>commit\<close> is the outcome of the database commit: \<open>None\<close> when it succeeds,
  the message of the exception otherwise. The agent table has a unique name column.
\<close>

definition update_agent_dependencies ::
  "nat \<Rightarrow> string option \<Rightarrow> Agent list \<Rightarrow> string \<Rightarrow> string list
     \<Rightarrow> (update_result \<times> Agent list) option" where
  "update_agent_dependencies fuel commit db agent new_dependencies =
     (if lower agent = ''coordinator'' \<and> new_dependencies \<noteq> [] then
        Some (UpdateError
          ''The coordinator agent cannot have dependencies. It must coordinate all other agents independently.'',
          db)
      else
        (case map_of (get_dependency_graph db) agent of
           None \<Rightarrow> Some (UpdateError (''Agent '' @ agent @ '' not found''), db)
         | Some node \<Rightarrow>
             (case detect_circular_dependencies fuel
                     (test_graph (get_dependency_graph db) agent node new_dependencies) of
                None \<Rightarrow> None
              | Some cycles \<Rightarrow>
                  if cycles \<noteq> [] then
                    Some (CircularError ''Update would create circular dependencies'' cycles, db)
                  else
                    (case find (\<lambda>a. agent_name a = agent) db of
                       None \<Rightarrow> Some (UpdateError (''Agent '' @ agent @ '' not found''), db)
                     | Some row \<Rightarrow>
                         (case commit of
                            None \<Rightarrow>
                              Some (UpdateSuccess new_dependencies
                                      (case map_of (test_graph (get_dependency_graph db) agent
                                                      node new_dependencies) agent of
                                         None \<Rightarrow> []
                                       | Some n \<Rightarrow> dependencies n),
                                    map (\<lambda>a. if agent_name a = agent
                                              then a\<lparr>agent_dependencies := Some new_dependencies\<rparr>
                                              else a) db)
                          | Some e \<Rightarrow>
                              Some (UpdateError (''Failed to update dependencies: '' @ e),
                                    db))))))"

section \<open>Workflow state (backend/langgraph/state.py)\<close>

text \<open>
  The fields of \<^verbatim>\<open>DynamicGlobalState\<close> that the scheduler's checks read:
  the outputs per agent and iteration, the workflow control values and the
  execution tracking.
\<close>

record 'o DynamicGlobalState =
  agent_outputs :: "(string \<times> (int \<times> 'o) list) list"
  current_iteration :: int
  max_iterations :: int
  stability_threshold :: int
  project_complete :: bool
  last_update_iteration :: "(string \<times> int) list"
  agent_execution_status :: "(string \<times> string) list"

text \<open>The loop of \<^verbatim>\<open>check_stability\<close> over \<^verbatim>\<open>last_update_iteration.items()\<close>.\<close>

fun stability_loop :: "int \<Rightarrow> int \<Rightarrow> (string \<times> int) list \<Rightarrow> bool" where
  "stability_loop current threshold [] = True"
| "stability_loop current threshold ((agent, last_update) # rest) =
     (if current - last_update < threshold then False
      else stability_loop current threshold rest)"

definition check_stability :: "'o DynamicGlobalState \<Rightarrow> bool" where
  "check_stability state =
     (if current_iteration state < stability_threshold state then False
      else stability_loop (current_iteration state) (stability_threshold state)
             (last_update_iteration state))"

section \<open>Agents and the aggregator (backend/agents/base_agent.py, workflows/langgraph.py)\<close>

text \<open>
  An agent object: its identity (membership in \<^verbatim>\<open>executed_agents\<close> compares
  objects), its name and its declared dependencies.
\<close>

record BaseAgent =
  self_ref :: nat
  self_name :: string
  self_dependencies :: "string list"

text \<open>The loop of \<^verbatim>\<open>check_dependencies_ready\<close> over \<^verbatim>\<open>self.dependencies\<close>.\<close>

fun dependencies_loop :: "'o DynamicGlobalState \<Rightarrow> string list \<Rightarrow> bool" where
  "dependencies_loop state [] = True"
| "dependencies_loop state (dependency # rest) =
     (case map_of (agent_outputs state) dependency of
        None \<Rightarrow> False
      | Some dep_outputs \<Rightarrow>
          if dep_outputs = [] then False
          else if \<not> list_ex (\<lambda>iteration. iteration \<le> current_iteration state)
                       (map fst dep_outputs) then False
          else dependencies_loop state rest)"

definition check_dependencies_ready :: "BaseAgent \<Rightarrow> 'o DynamicGlobalState \<Rightarrow> bool" where
  "check_dependencies_ready self state =
     (if self_dependencies self = [] then True
      else dependencies_loop state (self_dependencies self))"

text \<open>
  The list \<^verbatim>\<open>ready_agents\<close> that \<^verbatim>\<open>dynamic_aggregator\<close> computes at
  each attempt; a task \<^verbatim>\<open>agent.process(state)\<close> is created for each of its
  members and for no other agent.
\<close>

definition ready_agents ::
  "BaseAgent list \<Rightarrow> BaseAgent list \<Rightarrow> 'o DynamicGlobalState \<Rightarrow> BaseAgent list" where
  "ready_agents agents executed_agents state =
     filter (\<lambda>agent. agent \<notin> set executed_agents \<and> check_dependencies_ready agent state)
       agents"

section \<open>Atomic operations (backend/services/agent_lifecycle_manager.py)\<close>

record 'v OperationStep =
  step_name :: string
  service :: string
  operation :: string
  parameters :: "(string \<times> 'v) list"
  rollback_operation :: "string option"
  rollback_parameters :: "(string \<times> 'v) list option"
  completed :: bool
  result :: "'v option"
  error :: "string option"

record 'v AtomicOperation =
  operation_id :: string
  operation_type :: string
  steps :: "'v OperationStep list"
  completed_steps :: "nat list"
  failed_step :: "nat option"
  success :: bool
  error_message :: "string option"
  rollback_completed :: bool

text \<open>
  The registry \<^verbatim>\<open>active_operations\<close>, which holds an operation while it
  runs and is only read by status queries, is left out.

  \<^verbatim>\<open>AtomicOperation(operation_id=..., operation_type=...)\<close> followed by the
  \<^verbatim>\<open>operation.steps.append\<close> calls of a lifecycle request.
\<close>

definition new_operation :: "string \<Rightarrow> string \<Rightarrow> 'v OperationStep list \<Rightarrow> 'v AtomicOperation" where
  "new_operation oid otype step_list =
     \<lparr>operation_id = oid, operation_type = otype, steps = step_list,
      completed_steps = [], failed_step = None, success = False,
      error_message = None, rollback_completed = False\<rparr>"

text \<open>
  What the engine asks of its collaborators, in order: a call of
  \<^verbatim>\<open>_execute_step\<close> with the step it received, or the final
  \<^verbatim>\<open>db.rollback()\<close>.
\<close>

datatype 'v event = Executed "'v OperationStep" | DbRollback

datatype saga_error = IndexError

datatype saga_result =
    SagaSuccess string nat string
  | SagaFailure "string option" string bool string

text \<open>\<^verbatim>\<open>if step.rollback_operation:\<close> holds for a non-empty string.\<close>

definition has_rollback :: "'v OperationStep \<Rightarrow> bool" where
  "has_rollback step =
     (case rollback_operation step of None \<Rightarrow> False | Some opn \<Rightarrow> opn \<noteq> [])"

text \<open>The \<^verbatim>\<open>OperationStep\<close> that \<^verbatim>\<open>_rollback_operation\<close> builds for a step.\<close>

definition rollback_step :: "'v OperationStep \<Rightarrow> 'v OperationStep" where
  "rollback_step step =
     \<lparr>step_name = ''rollback_'' @ step_name step,
      service = service step,
      operation = (case rollback_operation step of None \<Rightarrow> [] | Some opn \<Rightarrow> opn),
      parameters = (case rollback_parameters step of None \<Rightarrow> [] | Some ps \<Rightarrow> ps),
      rollback_operation = None, rollback_parameters = None,
      completed = False, result = None, error = None\<rparr>"

text \<open>
  The loop of \<^verbatim>\<open>_rollback_operation\<close> over
  \<^verbatim>\<open>reversed(operation.completed_steps)\<close>. The collaborators are a parameter:
  \<open>exec step w\<close> is \<^verbatim>\<open>_execute_step\<close> in the world \<open>w\<close>, returning
  the new world and either the message of the exception raised or the result. An
  exception raised by a rollback is caught and the loop goes on;
  \<^verbatim>\<open>operation.steps[i]\<close> raises for an index out of range.
\<close>

fun rollback_loop ::
  "('v OperationStep \<Rightarrow> 'w \<Rightarrow> (string + 'v) \<times> 'w) \<Rightarrow> 'v OperationStep list \<Rightarrow> nat list
     \<Rightarrow> 'w \<Rightarrow> 'v event list \<Rightarrow> saga_error + ('w \<times> 'v event list)" where
  "rollback_loop exec step_list [] w tr = Inr (w, tr)"
| "rollback_loop exec step_list (i # rest) w tr =
     (if i < length step_list then
        (if has_rollback (step_list ! i) then
           rollback_loop exec step_list rest
             (snd (exec (rollback_step (step_list ! i)) w))
             (tr @ [Executed (rollback_step (step_list ! i))])
         else rollback_loop exec step_list rest w tr)
      else Inl IndexError)"

text \<open>
  \<^verbatim>\<open>_rollback_operation\<close>: \<open>db_rollback\<close> is the effect of
  \<^verbatim>\<open>db.rollback()\<close>, whose exception is caught as well.
\<close>

definition rollback_operation_of ::
  "('v OperationStep \<Rightarrow> 'w \<Rightarrow> (string + 'v) \<times> 'w) \<Rightarrow> ('w \<Rightarrow> 'w) \<Rightarrow> 'v AtomicOperation
     \<Rightarrow> 'w \<Rightarrow> 'v event list \<Rightarrow> saga_error + ('v AtomicOperation \<times> 'w \<times> 'v event list)" where
  "rollback_operation_of exec db_rollback opn w tr =
     (case rollback_loop exec (steps opn) (rev (completed_steps opn)) w tr of
        Inl e \<Rightarrow> Inl e
      | Inr (w', tr') \<Rightarrow>
          Inr (opn\<lparr>rollback_completed := True\<rparr>, db_rollback w', tr' @ [DbRollback]))"

text \<open>
  The loop of \<^verbatim>\<open>_execute_atomic_operation\<close> over
  \<^verbatim>\<open>enumerate(operation.steps)\<close>; the list argument is what is left of the
  enumeration.
\<close>

fun execute_loop ::
  "('v OperationStep \<Rightarrow> 'w \<Rightarrow> (string + 'v) \<times> 'w) \<Rightarrow> ('w \<Rightarrow> 'w)
     \<Rightarrow> (nat \<times> 'v OperationStep) list \<Rightarrow> 'v AtomicOperation \<Rightarrow> 'w \<Rightarrow> 'v event list
     \<Rightarrow> saga_error + (saga_result \<times> 'v AtomicOperation \<times> 'w \<times> 'v event list)" where
  "execute_loop exec db_rollback [] opn w tr =
     Inr (SagaSuccess
            (''Atomic '' @ operation_type opn @ '' completed successfully'')
            (length (completed_steps opn)) (operation_id opn),
          opn\<lparr>success := True\<rparr>, w, tr)"
| "execute_loop exec db_rollback ((i, step) # rest) opn w tr =
     (case exec step w of
        (Inr step_result, w') \<Rightarrow>
          execute_loop exec db_rollback rest
            (opn\<lparr>steps := (steps opn)[i := step\<lparr>completed := True, result := Some step_result\<rparr>],
                 completed_steps := completed_steps opn @ [i]\<rparr>)
            w' (tr @ [Executed step])
      | (Inl e, w') \<Rightarrow>
          (case rollback_operation_of exec db_rollback
                  (opn\<lparr>steps := (steps opn)[i := step\<lparr>error := Some e\<rparr>],
                       failed_step := Some i,
                       error_message :=
                         Some (''Step '' @ str_nat (i + 1) @ '' ('' @ step_name step @
                               '') failed: '' @ e)\<rparr>)
                  w' (tr @ [Executed step]) of
             Inl err \<Rightarrow> Inl err
           | Inr (opn', w'', tr') \<Rightarrow>
               Inr (SagaFailure (error_message opn') (step_name step)
                      (rollback_completed opn') (operation_id opn'),
                    opn', w'', tr')))"

definition execute_atomic_operation ::
  "('v OperationStep \<Rightarrow> 'w \<Rightarrow> (string + 'v) \<times> 'w) \<Rightarrow> ('w \<Rightarrow> 'w) \<Rightarrow> 'v AtomicOperation \<Rightarrow> 'w
     \<Rightarrow> saga_error + (saga_result \<times> 'v AtomicOperation \<times> 'w \<times> 'v event list)" where
  "execute_atomic_operation exec db_rollback opn w =
     execute_loop exec db_rollback (zip [0..<length (steps opn)] (steps opn)) opn w []"

section \<open>The stability check\<close>

lemma stability_loop_iff:
  "stability_loop current threshold xs \<longleftrightarrow>
     (\<forall>(agent, last_update) \<in> set xs. threshold \<le> current - last_update)"
  by (induction xs) (auto split: if_splits)

text \<open>
  Claim C2, as the code has it: \<^verbatim>\<open>check_stability\<close> returns true exactly when
  the current iteration is at least the stability threshold and, for every agent
  tracked in \<^verbatim>\<open>last_update_iteration\<close>, the last update lies at least
  \<^verbatim>\<open>stability_threshold\<close> iterations in the past
  (\<open>current_iteration - last_update \<ge> stability_threshold\<close>). In particular
  stability is never declared while \<open>current_iteration < stability_threshold\<close>.
\<close>

theorem check_stability_iff:
  "check_stability state \<longleftrightarrow>
     stability_threshold state \<le> current_iteration state \<and>
     (\<forall>(agent, last_update) \<in> set (last_update_iteration state).
        stability_threshold state \<le> current_iteration state - last_update)"
  by (auto simp: check_stability_def stability_loop_iff)

theorem check_stability_iff_witness:
  "check_stability
     \<lparr>agent_outputs = ([] :: (string \<times> (int \<times> unit) list) list), current_iteration = 3,
      max_iterations = 10, stability_threshold = 3, project_complete = False,
      last_update_iteration = [(''mission_planner'', 0), (''aerodynamics'', -1)],
      agent_execution_status = []\<rparr>"
  using check_stability_iff
    [of "\<lparr>agent_outputs = ([] :: (string \<times> (int \<times> unit) list) list), current_iteration = 3,
      max_iterations = 10, stability_threshold = 3, project_complete = False,
      last_update_iteration = [(''mission_planner'', 0), (''aerodynamics'', -1)],
      agent_execution_status = []\<rparr>"]
  by simp

text \<open>
  The strict reading of claim C2 fails: with threshold 3, at iteration 3, an agent
  whose last update was at iteration 0 does not block stability, although
  \<open>3 - 0 > 3\<close> is false.
\<close>

theorem check_stability_strict_counterexample:
  "\<not> (check_stability
          \<lparr>agent_outputs = ([] :: (string \<times> (int \<times> unit) list) list), current_iteration = 3,
           max_iterations = 10, stability_threshold = 3, project_complete = False,
           last_update_iteration = [(''mission_planner'', 0)],
           agent_execution_status = []\<rparr>
        \<longleftrightarrow> (3::int) \<le> 3 \<and> list_all (\<lambda>(agent, last_update). (3::int) - last_update > 3)
                            [(''mission_planner'', 0)])"
  by (simp add: check_stability_def)

section \<open>Dependency readiness and dispatch\<close>

lemma dependencies_loop_iff:
  "dependencies_loop state deps \<longleftrightarrow>
     (\<forall>dependency \<in> set deps.
        \<exists>dep_outputs. map_of (agent_outputs state) dependency = Some dep_outputs \<and>
          (\<exists>(iteration, out) \<in> set dep_outputs. iteration \<le> current_iteration state))"
  by (induction deps) (force simp: list_ex_iff split: option.splits)+

text \<open>
  Claim C5: an agent for which the aggregator creates a task in a state whose current
  iteration is \<open>n\<close> has, for every declared dependency, a recorded output at some
  iteration \<open>\<le> n\<close>; an agent without declared dependencies is always
  dependency-ready.
\<close>

theorem dispatch_requires_dependency_outputs:
  "(agent \<in> set (ready_agents agents executed_agents state) \<longrightarrow>
      (\<forall>dependency \<in> set (self_dependencies agent).
         \<exists>dep_outputs. map_of (agent_outputs state) dependency = Some dep_outputs \<and>
           (\<exists>(iteration, out) \<in> set dep_outputs. iteration \<le> current_iteration state))) \<and>
   (self_dependencies agent = [] \<longrightarrow> check_dependencies_ready agent state)"
  by (auto simp: ready_agents_def check_dependencies_ready_def dependencies_loop_iff
           split: if_splits)

theorem dispatch_requires_dependency_outputs_witness:
  "\<lparr>self_ref = 1, self_name = ''aerodynamics'', self_dependencies = [''mission_planner'']\<rparr>
     \<in> set (ready_agents
               [\<lparr>self_ref = 1, self_name = ''aerodynamics'', self_dependencies = [''mission_planner'']\<rparr>] []
               \<lparr>agent_outputs = [(''mission_planner'', [(0, ())])], current_iteration = 1,
                max_iterations = 10, stability_threshold = 3, project_complete = False,
                last_update_iteration = [(''mission_planner'', 0)],
                agent_execution_status = []\<rparr>) \<and>
   (\<exists>dep_outputs.
      map_of [(''mission_planner'', [(0::int, ())])] ''mission_planner'' = Some dep_outputs \<and>
      (\<exists>(iteration, out) \<in> set dep_outputs. iteration \<le> 1)) \<and>
   check_dependencies_ready \<lparr>self_ref = 0, self_name = ''mission_planner'', self_dependencies = []\<rparr>
     \<lparr>agent_outputs = ([] :: (string \<times> (int \<times> unit) list) list), current_iteration = 0,
      max_iterations = 10, stability_threshold = 3, project_complete = False,
      last_update_iteration = [], agent_execution_status = []\<rparr>"
  using dispatch_requires_dependency_outputs
    [of "\<lparr>self_ref = 1, self_name = ''aerodynamics'', self_dependencies = [''mission_planner'']\<rparr>"
        "[\<lparr>self_ref = 1, self_name = ''aerodynamics'', self_dependencies = [''mission_planner'']\<rparr>]" "[]"
        "\<lparr>agent_outputs = [(''mission_planner'', [(0, ())])], current_iteration = 1,
          max_iterations = 10, stability_threshold = 3, project_complete = False,
          last_update_iteration = [(''mission_planner'', 0)],
          agent_execution_status = []\<rparr>"]
    dispatch_requires_dependency_outputs
    [of "\<lparr>self_ref = 0, self_name = ''mission_planner'', self_dependencies = []\<rparr>" "[]" "[]"
        "\<lparr>agent_outputs = ([] :: (string \<times> (int \<times> unit) list) list), current_iteration = 0,
          max_iterations = 10, stability_threshold = 3, project_complete = False,
          last_update_iteration = [], agent_execution_status = []\<rparr>"]
  by (simp add: ready_agents_def check_dependencies_ready_def)

section \<open>The dependency graph builder\<close>

lemma map_of_add_dependent:
  "map_of (add_dependent agent dependency nodes) k =
     (if k = dependency
      then map_option (\<lambda>n. n\<lparr>dependents := dependents n @ [agent]\<rparr>) (map_of nodes k)
      else map_of nodes k)"
  by (auto simp: add_dependent_def update_conv' split: option.splits)

lemma keys_add_dependent:
  "map fst (add_dependent agent dependency nodes) = map fst nodes"
  by (auto simp: add_dependent_def update_keys map_of_eq_None_iff [symmetric]
           split: option.splits)

lemma map_of_fold_add_dependent:
  "map_of (fold (add_dependent agent) deps nodes) k =
     map_option (\<lambda>n. n\<lparr>dependents := dependents n @ map (\<lambda>_. agent) (filter (\<lambda>d. d = k) deps)\<rparr>)
       (map_of nodes k)"
proof (induction deps arbitrary: nodes)
  case Nil
  show ?case by (cases "map_of nodes k") simp_all
next
  case (Cons d deps)
  show ?case
    by (cases "map_of nodes k") (auto simp: Cons.IH map_of_add_dependent)
qed

lemma keys_fold_add_dependent:
  "map fst (fold (add_dependent agent) deps nodes) = map fst nodes"
  by (induction deps arbitrary: nodes) (simp_all add: keys_add_dependent)

lemma map_of_populate:
  "map_of (fold (\<lambda>(agent, node) g. fold (add_dependent agent) (dependencies node) g) items nodes) k =
     map_option
       (\<lambda>n. n\<lparr>dependents := dependents n @
               concat (map (\<lambda>(agent, node). map (\<lambda>_. agent) (filter (\<lambda>d. d = k) (dependencies node)))
                         items)\<rparr>)
       (map_of nodes k)"
proof (induction items arbitrary: nodes)
  case Nil
  show ?case by (cases "map_of nodes k") simp_all
next
  case (Cons item items)
  obtain a nd where item: "item = (a, nd)" by (cases item)
  show ?case
    by (cases "map_of nodes k") (simp_all add: item Cons.IH map_of_fold_add_dependent)
qed

lemma keys_populate:
  "map fst (fold (\<lambda>(agent, node) g. fold (add_dependent agent) (dependencies node) g) items nodes)
     = map fst nodes"
  by (induction items arbitrary: nodes) (auto simp: keys_fold_add_dependent)

lemma keys_populate_dependents: "map fst (populate_dependents nodes) = map fst nodes"
  by (simp add: populate_dependents_def keys_populate)

lemma map_of_populate_dependents:
  "map_of (populate_dependents nodes) k =
     map_option
       (\<lambda>n. n\<lparr>dependents := dependents n @
               concat (map (\<lambda>(agent, node). map (\<lambda>_. agent) (filter (\<lambda>d. d = k) (dependencies node)))
                         nodes)\<rparr>)
       (map_of nodes k)"
  by (simp add: populate_dependents_def map_of_populate)

lemma keys_build_fold:
  "fst ` set (fold (\<lambda>agent nodes. AList.update (agent_name agent) (mk agent) nodes) xs g)
     = agent_name ` set xs \<union> fst ` set g"
  by (induction xs arbitrary: g) (auto simp: dom_update)

lemma distinct_build_fold:
  "distinct (map fst g) \<Longrightarrow>
   distinct (map fst (fold (\<lambda>agent nodes. AList.update (agent_name agent) (mk agent) nodes) xs g))"
  by (induction xs arbitrary: g) (auto simp: distinct_update)

lemma map_of_build_fold:
  "map_of (fold (\<lambda>agent nodes. AList.update (agent_name agent) (mk agent) nodes) xs g) k = Some n
   \<Longrightarrow> map_of g k = Some n \<or> (\<exists>a \<in> set xs. agent_name a = k \<and> n = mk a)"
proof (induction xs arbitrary: g)
  case Nil
  then show ?case by simp
next
  case (Cons x xs)
  from Cons.prems have
    "map_of (fold (\<lambda>agent nodes. AList.update (agent_name agent) (mk agent) nodes) xs
               (AList.update (agent_name x) (mk x) g)) k = Some n"
    by simp
  from Cons.IH [OF this] show ?case
    by (auto simp: update_conv' split: if_splits)
qed

lemma keys_build_nodes: "set (map fst (build_nodes agents)) = agent_name ` set agents"
  unfolding build_nodes_def using keys_build_fold [of _ agents "[]"] by simp

lemma distinct_build_nodes: "distinct (map fst (build_nodes agents))"
  unfolding build_nodes_def by (rule distinct_build_fold) simp

lemma map_of_build_nodes:
  assumes "map_of (build_nodes agents) k = Some n"
  shows "\<exists>a \<in> set agents. agent_name a = k \<and> name n = k \<and> ident n = agent_id a \<and>
           dependencies n = filter (\<lambda>dep. dep \<in> agent_name ` set agents) (deps_or_empty a) \<and>
           dependents n = []"
  using map_of_build_fold [OF assms [unfolded build_nodes_def]] by auto

lemma keys_graph:
  "set (map fst (get_dependency_graph db)) = agent_name ` set (eligible_agents db)"
  by (simp add: get_dependency_graph_def keys_populate_dependents keys_build_nodes
           del: set_map)

lemma distinct_graph: "distinct (map fst (get_dependency_graph db))"
  by (simp add: get_dependency_graph_def keys_populate_dependents distinct_build_nodes)

lemma map_of_graph:
  assumes "map_of (get_dependency_graph db) k = Some n"
  shows "\<exists>a \<in> set (eligible_agents db). agent_name a = k \<and> name n = k \<and>
           dependencies n =
             filter (\<lambda>dep. dep \<in> agent_name ` set (eligible_agents db)) (deps_or_empty a)"
proof -
  from assms obtain n0 where n0: "map_of (build_nodes (eligible_agents db)) k = Some n0"
    and n: "dependencies n = dependencies n0" "name n = name n0"
    by (auto simp: get_dependency_graph_def map_of_populate_dependents)
  from map_of_build_nodes [OF n0] n show ?thesis by auto
qed

lemma graph_dependencies_closed:
  assumes "map_of (get_dependency_graph db) k = Some n"
  shows "set (dependencies n) \<subseteq> set (map fst (get_dependency_graph db))"
  using map_of_graph [OF assms] by (auto simp: keys_graph simp del: set_map)

lemma graph_dependents_iff:
  assumes "map_of (get_dependency_graph db) k = Some n"
  shows "x \<in> set (dependents n) \<longleftrightarrow>
           (\<exists>m. map_of (get_dependency_graph db) x = Some m \<and> k \<in> set (dependencies m))"
proof -
  let ?B = "build_nodes (eligible_agents db)"
  from assms obtain n0 where n0: "map_of ?B k = Some n0"
    and dn: "dependents n = dependents n0 @
       concat (map (\<lambda>(agent, node). map (\<lambda>_. agent) (filter (\<lambda>d. d = k) (dependencies node))) ?B)"
    by (auto simp: get_dependency_graph_def map_of_populate_dependents)
  from map_of_build_nodes [OF n0] have "dependents n0 = []" by auto
  with dn have "x \<in> set (dependents n) \<longleftrightarrow> (\<exists>m. (x, m) \<in> set ?B \<and> k \<in> set (dependencies m))"
    by auto
  also have "\<dots> \<longleftrightarrow> (\<exists>m. map_of ?B x = Some m \<and> k \<in> set (dependencies m))"
    using distinct_build_nodes [of "eligible_agents db"] by (auto dest: map_of_SomeD)
  also have "\<dots> \<longleftrightarrow> (\<exists>m. map_of (get_dependency_graph db) x = Some m \<and> k \<in> set (dependencies m))"
    by (auto simp: get_dependency_graph_def map_of_populate_dependents)
  finally show ?thesis .
qed

text \<open>
  Claim C10: on every graph that \<^verbatim>\<open>get_dependency_graph\<close> builds,
  \<^verbatim>\<open>find_orphaned_dependencies\<close> returns the empty list, since the builder
  keeps in each dependency list only names of the snapshot it builds nodes for.
\<close>

theorem built_graph_has_no_orphans:
  "find_orphaned_dependencies (get_dependency_graph db) = []"
proof -
  have "set (dependencies node) \<subseteq> set (map fst (get_dependency_graph db))"
    if "(k, node) \<in> set (get_dependency_graph db)" for k node
    using that distinct_graph [of db] graph_dependencies_closed [of db k node] by simp
  then show ?thesis
    unfolding find_orphaned_dependencies_def
    by (fastforce simp: filter_empty_conv)
qed

theorem built_graph_has_no_orphans_witness:
  "find_orphaned_dependencies
     (get_dependency_graph
        [\<lparr>agent_id = 1, agent_name = ''M'', agent_status = INACTIVE,
           agent_dependencies = Some [''ghost'']\<rparr>,
         \<lparr>agent_id = 2, agent_name = ''A'', agent_status = ERROR, agent_dependencies = None\<rparr>,
         \<lparr>agent_id = 3, agent_name = ''S'', agent_status = RUNNING,
           agent_dependencies = Some [''M'', ''A'']\<rparr>]) = []"
  by (rule built_graph_has_no_orphans)

section \<open>Deletion impact without dependents\<close>

lemma demo_graph:
  "get_dependency_graph
     [\<lparr>agent_id = 1, agent_name = ''M'', agent_status = INACTIVE, agent_dependencies = Some []\<rparr>,
      \<lparr>agent_id = 2, agent_name = ''A'', agent_status = INACTIVE, agent_dependencies = Some [''M'']\<rparr>,
      \<lparr>agent_id = 3, agent_name = ''S'', agent_status = RUNNING,
        agent_dependencies = Some [''M'', ''A'']\<rparr>]
   = [(''M'', \<lparr>name = ''M'', ident = 1, dependencies = [], dependents = [''A'', ''S'']\<rparr>),
      (''A'', \<lparr>name = ''A'', ident = 2, dependencies = [''M''], dependents = [''S'']\<rparr>),
      (''S'', \<lparr>name = ''S'', ident = 3, dependencies = [''M'', ''A''], dependents = []\<rparr>)]"
  by (simp add: get_dependency_graph_def populate_dependents_def build_nodes_def
        eligible_agents_def deps_or_empty_def add_dependent_def)

text \<open>
  Claim C8, as the code has it: when the graph contains an agent \<open>n\<close> that no
  agent of the graph depends on, \<open>n\<close> itself included, the deletion plan for \<open>n\<close>
  is the trivial one: it can be deleted safely and the deletion order is \<open>[n]\<close>.
\<close>

theorem no_dependents_trivial_plan:
  assumes "map_of (get_dependency_graph db) n = Some node"
    and "\<forall>(k, m) \<in> set (get_dependency_graph db). n \<notin> set (dependencies m)"
  shows "analyze_deletion_impact fuel iteration_order db n =
           Some \<lparr>target_agent = n, can_delete_safely = True, dependent_agents = [],
                 cascade_deletion_required = False, deletion_order = [n], warnings = []\<rparr>"
proof -
  have "x \<notin> set (dependents node)" for x
  proof
    assume "x \<in> set (dependents node)"
    then obtain m where m: "map_of (get_dependency_graph db) x = Some m"
      and dep: "n \<in> set (dependencies m)"
      using graph_dependents_iff [OF assms(1)] by blast
    from m have "(x, m) \<in> set (get_dependency_graph db)" by (rule map_of_SomeD)
    with assms(2) dep show False by auto
  qed
  then have "dependents node = []"
    by (cases "dependents node") auto
  with assms(1) show ?thesis
    by (simp add: analyze_deletion_impact_def)
qed

theorem no_dependents_trivial_plan_witness:
  "analyze_deletion_impact 5 [''S'']
     [\<lparr>agent_id = 1, agent_name = ''M'', agent_status = INACTIVE, agent_dependencies = Some []\<rparr>,
      \<lparr>agent_id = 2, agent_name = ''A'', agent_status = INACTIVE, agent_dependencies = Some [''M'']\<rparr>,
      \<lparr>agent_id = 3, agent_name = ''S'', agent_status = RUNNING,
        agent_dependencies = Some [''M'', ''A'']\<rparr>] ''S''
   = Some \<lparr>target_agent = ''S'', can_delete_safely = True, dependent_agents = [],
           cascade_deletion_required = False, deletion_order = [''S''], warnings = []\<rparr>"
  by (rule no_dependents_trivial_plan
        [where node = "\<lparr>name = ''S'', ident = 3, dependencies = [''M'', ''A''], dependents = []\<rparr>"])
     (simp_all add: demo_graph)

text \<open>
  An agent that lists its own name is its own dependent in the graph that is built, so
  its plan is never the trivial one; on the graph below \<^verbatim>\<open>add_to_order\<close> calls
  itself on the same agent before marking it processed and returns for no bound on the
  depth of the recursion.
\<close>

lemma self_dependent_graph:
  "get_dependency_graph
     [\<lparr>agent_id = 1, agent_name = ''A'', agent_status = INACTIVE, agent_dependencies = Some [''A'']\<rparr>,
      \<lparr>agent_id = 2, agent_name = ''B'', agent_status = INACTIVE, agent_dependencies = Some []\<rparr>]
   = [(''A'', \<lparr>name = ''A'', ident = 1, dependencies = [''A''], dependents = [''A'']\<rparr>),
      (''B'', \<lparr>name = ''B'', ident = 2, dependencies = [], dependents = []\<rparr>)]"
  by (simp add: get_dependency_graph_def populate_dependents_def build_nodes_def
        eligible_agents_def deps_or_empty_def add_dependent_def)

lemma self_dependency_never_trivial:
  assumes "map_of (get_dependency_graph db) n = Some node"
    and "n \<in> set (dependencies node)"
  shows "analyze_deletion_impact fuel iteration_order db n \<noteq>
           Some \<lparr>target_agent = n, can_delete_safely = True, dependent_agents = [],
                 cascade_deletion_required = False, deletion_order = [n], warnings = []\<rparr>"
proof -
  from assms have "n \<in> set (dependents node)"
    using graph_dependents_iff [OF assms(1)] by blast
  then have "dependents node \<noteq> []" by auto
  with assms(1) show ?thesis
    by (auto simp: analyze_deletion_impact_def split: option.splits)
qed

lemma add_to_order_self_dependent:
  assumes "map_of nodes a = Some node" and "dependents node = a # rest"
    and "a \<in> affected" and "a \<notin> processed st"
  shows "add_to_order fuel nodes affected a st = None"
  using assms(4)
proof (induction fuel arbitrary: st)
  case 0
  show ?case by simp
next
  case (Suc fuel)
  from Suc.IH [OF Suc.prems] Suc.prems assms(1,2,3) show ?case
    by simp
qed

lemma collect_affected_self:
  "collect_affected
     [(''A'', \<lparr>name = ''A'', ident = 1, dependencies = [''A''], dependents = [''A'']\<rparr>),
      (''B'', \<lparr>name = ''B'', ident = 2, dependencies = [], dependents = []\<rparr>)] [''A''] {} = {''A''}"
  by (simp add: collect_affected.simps)

lemma self_dependent_plan_never_returns:
  "analyze_deletion_impact fuel [''A'']
     [\<lparr>agent_id = 1, agent_name = ''A'', agent_status = INACTIVE, agent_dependencies = Some [''A'']\<rparr>,
      \<lparr>agent_id = 2, agent_name = ''B'', agent_status = INACTIVE, agent_dependencies = Some []\<rparr>]
     ''A'' = None"
proof -
  have "add_to_order fuel
      [(''A'', \<lparr>name = ''A'', ident = 1, dependencies = [''A''], dependents = [''A'']\<rparr>),
       (''B'', \<lparr>name = ''B'', ident = 2, dependencies = [], dependents = []\<rparr>)]
      {''A''} ''A'' \<lparr>del_order = [], processed = {}\<rparr> = None"
    by (rule add_to_order_self_dependent
          [where node = "\<lparr>name = ''A'', ident = 1, dependencies = [''A''], dependents = [''A'']\<rparr>"])
       simp_all
  then show ?thesis
    by (simp add: analyze_deletion_impact_def self_dependent_graph
          calculate_cascade_deletion_order_def collect_affected_self)
qed

text \<open>
  Claim C8 as stated fails for an agent that depends on itself and on which no other
  agent depends: \<open>A\<close> is listed among its own dependents, the safe branch is not
  taken, and the computation of the cascade order does not return.
\<close>

theorem self_dependent_agent_counterexample:
  "get_dependency_graph
     [\<lparr>agent_id = 1, agent_name = ''A'', agent_status = INACTIVE, agent_dependencies = Some [''A'']\<rparr>,
      \<lparr>agent_id = 2, agent_name = ''B'', agent_status = INACTIVE, agent_dependencies = Some []\<rparr>]
   = [(''A'', \<lparr>name = ''A'', ident = 1, dependencies = [''A''], dependents = [''A'']\<rparr>),
      (''B'', \<lparr>name = ''B'', ident = 2, dependencies = [], dependents = []\<rparr>)] \<and>
   filter (\<lambda>(k, m). k \<noteq> ''A'' \<and> ''A'' \<in> set (dependencies m))
     (get_dependency_graph
        [\<lparr>agent_id = 1, agent_name = ''A'', agent_status = INACTIVE, agent_dependencies = Some [''A'']\<rparr>,
         \<lparr>agent_id = 2, agent_name = ''B'', agent_status = INACTIVE, agent_dependencies = Some []\<rparr>])
   = [] \<and>
   analyze_deletion_impact 1000 [''A'']
     [\<lparr>agent_id = 1, agent_name = ''A'', agent_status = INACTIVE, agent_dependencies = Some [''A'']\<rparr>,
      \<lparr>agent_id = 2, agent_name = ''B'', agent_status = INACTIVE, agent_dependencies = Some []\<rparr>]
     ''A'' = None"
  by (simp add: self_dependent_graph self_dependent_plan_never_returns)

section \<open>Rollback of a failed atomic operation\<close>

lemma rollback_loop_valid:
  "\<forall>i \<in> set idxs. i < length sts \<Longrightarrow>
   rollback_loop exec sts idxs w tr =
     Inr (fold (\<lambda>s w. snd (exec (rollback_step s) w)) (filter has_rollback (map ((!) sts) idxs)) w,
          tr @ map (\<lambda>s. Executed (rollback_step s))
                     (filter has_rollback (map ((!) sts) idxs)))"
proof (induction idxs arbitrary: w tr)
  case Nil
  then show ?case by simp
next
  case (Cons i idxs)
  then have i: "i < length sts" and rest: "\<forall>i \<in> set idxs. i < length sts" by simp_all
  show ?case
  proof (cases "has_rollback (sts ! i)")
    case True
    from Cons.IH [OF rest, of "snd (exec (rollback_step (sts ! i)) w)"
        "tr @ [Executed (rollback_step (sts ! i))]"]
    show ?thesis using i True by simp
  next
    case False
    from Cons.IH [OF rest, of w tr] show ?thesis using i False by simp
  qed
qed

lemma same_rollbacks:
  "list_all2 (\<lambda>a b. rollback_step a = rollback_step b \<and> has_rollback a = has_rollback b) xs ys
   \<Longrightarrow> map (\<lambda>s. Executed (rollback_step s)) (filter has_rollback xs)
     = map (\<lambda>s. Executed (rollback_step s)) (filter has_rollback ys)"
  by (induction rule: list_all2_induct) auto

lemma same_rollback_worlds:
  "list_all2 (\<lambda>a b. rollback_step a = rollback_step b \<and> has_rollback a = has_rollback b) xs ys
   \<Longrightarrow> fold (\<lambda>s w. snd (exec (rollback_step s) w)) (filter has_rollback xs) w
     = fold (\<lambda>s w. snd (exec (rollback_step s) w)) (filter has_rollback ys) w"
  by (induction arbitrary: w rule: list_all2_induct) auto

lemma rollback_step_bookkeeping [simp]:
  "rollback_step (s\<lparr>completed := c, result := r\<rparr>) = rollback_step s"
  "rollback_step (s\<lparr>error := e\<rparr>) = rollback_step s"
  "has_rollback (s\<lparr>completed := c, result := r\<rparr>) = has_rollback s"
  "has_rollback (s\<lparr>error := e\<rparr>) = has_rollback s"
  by (simp_all add: rollback_step_def has_rollback_def)

lemma nth_upt_take: "k \<le> length xs \<Longrightarrow> map ((!) xs) [0..<k] = take k xs"
  by (simp add: list_eq_iff_nth_eq)

lemma rollback_operation_of_prefix:
  assumes len: "j \<le> length sts0" "length (steps opn) = length sts0"
    and rel: "list_all2 (\<lambda>a b. rollback_step a = rollback_step b \<and> has_rollback a = has_rollback b)
                (steps opn) sts0"
    and cs: "completed_steps opn = [0..<j]"
  shows "rollback_operation_of exec db_rollback opn w tr =
           Inr (opn\<lparr>rollback_completed := True\<rparr>,
                db_rollback (fold (\<lambda>s w. snd (exec (rollback_step s) w))
                               (filter has_rollback (rev (take j sts0))) w),
                tr @ map (\<lambda>s. Executed (rollback_step s)) (filter has_rollback (rev (take j sts0)))
                   @ [DbRollback])"
proof -
  have "\<forall>i \<in> set (rev (completed_steps opn)). i < length (steps opn)"
    using len cs by simp
  note w1 = rollback_loop_valid [OF this, of exec w tr]
  have m: "map ((!) (steps opn)) (rev (completed_steps opn)) = rev (take j (steps opn))"
    using len cs by (simp add: rev_map [symmetric] nth_upt_take)
  have r: "list_all2 (\<lambda>a b. rollback_step a = rollback_step b \<and> has_rollback a = has_rollback b)
      (rev (take j (steps opn))) (rev (take j sts0))"
    using rel by (simp add: list_all2_takeI)
  from same_rollbacks [OF r] have t: "map (\<lambda>s. Executed (rollback_step s))
        (filter has_rollback (map ((!) (steps opn)) (rev (completed_steps opn))))
      = map (\<lambda>s. Executed (rollback_step s)) (filter has_rollback (rev (take j sts0)))"
    by (simp only: m)
  from same_rollback_worlds [OF r, of exec w]
  have v: "fold (\<lambda>s w. snd (exec (rollback_step s) w))
        (filter has_rollback (map ((!) (steps opn)) (rev (completed_steps opn)))) w
      = fold (\<lambda>s w. snd (exec (rollback_step s) w)) (filter has_rollback (rev (take j sts0))) w"
    by (simp only: m)
  show ?thesis
    unfolding rollback_operation_of_def w1 t v by simp
qed

lemma execute_loop_failure:
  assumes "j \<le> k" "k < length sts0" "length (steps opn) = length sts0"
    and "list_all2 (\<lambda>a b. rollback_step a = rollback_step b \<and> has_rollback a = has_rollback b)
           (steps opn) sts0"
    and "completed_steps opn = [0..<j]"
    and "\<forall>i<k - j. \<exists>r. fst (exec (sts0 ! (j + i))
                            (fold (\<lambda>s w. snd (exec s w)) (take i (drop j sts0)) w)) = Inr r"
    and "fst (exec (sts0 ! k) (fold (\<lambda>s w. snd (exec s w)) (take (k - j) (drop j sts0)) w)) = Inl e"
  shows "\<exists>opn'.
           execute_loop exec db_rollback (zip [j..<length sts0] (drop j sts0)) opn w tr
             = Inr (SagaFailure
                      (Some (''Step '' @ str_nat (k + 1) @ '' ('' @ step_name (sts0 ! k) @
                             '') failed: '' @ e))
                      (step_name (sts0 ! k)) True (operation_id opn),
                    opn',
                    db_rollback
                      (fold (\<lambda>s w. snd (exec (rollback_step s) w))
                         (filter has_rollback (rev (take k sts0)))
                         (fold (\<lambda>s w. snd (exec s w)) (take (Suc k - j) (drop j sts0)) w)),
                    tr @ map Executed (take (Suc k - j) (drop j sts0))
                      @ map (\<lambda>s. Executed (rollback_step s))
                          (filter has_rollback (rev (take k sts0)))
                      @ [DbRollback]) \<and>
           failed_step opn' = Some k \<and> completed_steps opn' = [0..<k] \<and>
           rollback_completed opn' \<and> success opn' = success opn \<and>
           error (steps opn' ! k) = Some e"
  using assms
proof (induction "k - j" arbitrary: j opn w tr)
  case 0
  then have jk: "j = k" by simp
  have k: "k < length sts0" using 0 by simp
  have unfold: "zip [k..<length sts0] (drop k sts0)
      = (k, sts0 ! k) # zip [Suc k..<length sts0] (drop (Suc k) sts0)"
    using k by (simp add: upt_conv_Cons Cons_nth_drop_Suc [symmetric])
  obtain w1 where ex: "exec (sts0 ! k) w = (Inl e, w1)"
    using "0.prems"(7) jk by (cases "exec (sts0 ! k) w") simp
  let ?opn = "opn\<lparr>steps := (steps opn)[k := (sts0 ! k)\<lparr>error := Some e\<rparr>],
                    failed_step := Some k,
                    error_message :=
                      Some (''Step '' @ str_nat (k + 1) @ '' ('' @ step_name (sts0 ! k) @
                            '') failed: '' @ e)\<rparr>"
  have a1: "k \<le> length sts0" using k by simp
  have a2: "length (steps ?opn) = length sts0" using "0.prems"(3) by simp
  have a3: "list_all2 (\<lambda>a b. rollback_step a = rollback_step b \<and> has_rollback a = has_rollback b)
      (steps ?opn) sts0"
    using "0.prems"(4) k
    by (simp add: list_all2_conv_all_nth nth_list_update)
  have a4: "completed_steps ?opn = [0..<k]" using "0.prems"(5) jk by simp
  note rb = rollback_operation_of_prefix [OF a1 a2 a3 a4, of exec db_rollback w1
      "tr @ [Executed (sts0 ! k)]"]
  have t: "take (Suc 0) (drop k sts0) = [sts0 ! k]"
    using k by (simp add: Cons_nth_drop_Suc [symmetric])
  show ?case
    unfolding jk using rb ex k "0.prems"(3) a4 by (simp add: unfold t)
next
  case (Suc m)
  then have j: "j < length sts0" and jk: "j < k" by simp_all
  have unfold: "zip [j..<length sts0] (drop j sts0)
      = (j, sts0 ! j) # zip [Suc j..<length sts0] (drop (Suc j) sts0)"
    using j by (simp add: upt_conv_Cons Cons_nth_drop_Suc [symmetric])
  have d: "drop j sts0 = sts0 ! j # drop (Suc j) sts0"
    using j by (simp add: Cons_nth_drop_Suc)
  from Suc.prems(6) jk have "\<exists>r. fst (exec (sts0 ! j) w) = Inr r"
    by (auto dest: spec [of _ 0])
  then obtain step_result w1 where ex: "exec (sts0 ! j) w = (Inr step_result, w1)"
    by (cases "exec (sts0 ! j) w") auto
  let ?opn = "opn\<lparr>steps := (steps opn)[j := (sts0 ! j)\<lparr>completed := True, result := Some step_result\<rparr>],
                    completed_steps := completed_steps opn @ [j]\<rparr>"
  have m: "m = k - Suc j" using Suc.hyps(2) by simp
  have a1: "Suc j \<le> k" using jk by simp
  have a2: "length (steps ?opn) = length sts0" using Suc.prems(3) by simp
  have a3: "list_all2 (\<lambda>a b. rollback_step a = rollback_step b \<and> has_rollback a = has_rollback b)
      (steps ?opn) sts0"
    using Suc.prems(4) j
    by (simp add: list_all2_conv_all_nth nth_list_update)
  have a4: "completed_steps ?opn = [0..<Suc j]" using Suc.prems(5) by simp
  have a6: "\<forall>i<k - Suc j. \<exists>r. fst (exec (sts0 ! (Suc j + i))
                            (fold (\<lambda>s w. snd (exec s w)) (take i (drop (Suc j) sts0)) w1)) = Inr r"
  proof (intro allI impI)
    fix i assume "i < k - Suc j"
    then have "Suc i < k - j" by simp
    with Suc.prems(6) have "\<exists>r. fst (exec (sts0 ! (j + Suc i))
                            (fold (\<lambda>s w. snd (exec s w)) (take (Suc i) (drop j sts0)) w)) = Inr r"
      by blast
    then show "\<exists>r. fst (exec (sts0 ! (Suc j + i))
                            (fold (\<lambda>s w. snd (exec s w)) (take i (drop (Suc j) sts0)) w1)) = Inr r"
      using ex by (simp add: d)
  qed
  have kj: "k - j = Suc (k - Suc j)" using jk by simp
  have a7: "fst (exec (sts0 ! k) (fold (\<lambda>s w. snd (exec s w)) (take (k - Suc j) (drop (Suc j) sts0)) w1)) = Inl e"
    using Suc.prems(7) ex by (simp add: kj d)
  from Suc.hyps(1) [OF m a1 Suc.prems(2) a2 a3 a4 a6 a7, of "tr @ [Executed (sts0 ! j)]"]
  obtain opn' where
    run: "execute_loop exec db_rollback (zip [Suc j..<length sts0] (drop (Suc j) sts0)) ?opn w1
            (tr @ [Executed (sts0 ! j)])
          = Inr (SagaFailure
                      (Some (''Step '' @ str_nat (k + 1) @ '' ('' @ step_name (sts0 ! k) @
                             '') failed: '' @ e))
                      (step_name (sts0 ! k)) True (operation_id ?opn),
                    opn',
                    db_rollback
                      (fold (\<lambda>s w. snd (exec (rollback_step s) w))
                         (filter has_rollback (rev (take k sts0)))
                         (fold (\<lambda>s w. snd (exec s w)) (take (Suc k - Suc j) (drop (Suc j) sts0)) w1)),
                    (tr @ [Executed (sts0 ! j)]) @ map Executed (take (Suc k - Suc j) (drop (Suc j) sts0))
                      @ map (\<lambda>s. Executed (rollback_step s))
                          (filter has_rollback (rev (take k sts0)))
                      @ [DbRollback])"
    and post: "failed_step opn' = Some k" "completed_steps opn' = [0..<k]"
      "rollback_completed opn'" "success opn' = success ?opn" "error (steps opn' ! k) = Some e"
    by blast
  have skj: "Suc k - j = Suc (Suc k - Suc j)" using jk by simp
  have tk: "take (Suc k - j) (drop j sts0) = sts0 ! j # take (Suc k - Suc j) (drop (Suc j) sts0)"
    by (simp only: skj) (simp add: d)
  have eq: "execute_loop exec db_rollback (zip [j..<length sts0] (drop j sts0)) opn w tr
      = execute_loop exec db_rollback (zip [Suc j..<length sts0] (drop (Suc j) sts0)) ?opn w1
            (tr @ [Executed (sts0 ! j)])"
    using ex by (simp add: unfold)
  show ?case
    unfolding eq run tk using post ex by simp
qed

lemma char_of_five: "char_of (53 :: nat) = CHR ''5''"
  by code_simp

text \<open>
  Claim C1, as the code has it. A step fails when its \<^verbatim>\<open>_execute_step\<close> call
  raises; a call that returns completes the step, whatever the value returned says.
  Let the calls for the steps \<open>0..k-1\<close> of a freshly built operation return and the
  call for step \<open>k\<close> raise, each call made in the world its predecessors left. Then
  the operation reports the failure of step \<open>k\<close>, and the calls of
  \<^verbatim>\<open>_execute_step\<close> are: the steps \<open>0..k\<close> in order (step \<open>k\<close> is
  attempted once, no later step is), then one rollback call for each of the completed
  steps \<open>0..k-1\<close> that declares a rollback operation, in reverse order
  \<open>k-1, ..., 0\<close>, each built from the step's declared rollback operation and
  parameters and each made whatever the earlier rollback calls returned or raised; a
  completed step that declares no rollback operation receives no rollback call, and
  neither does step \<open>k\<close> or any later step. The database rollback follows.
\<close>

theorem failed_step_rollback_trace:
  assumes "k < length sts"
    and "\<forall>j<k. \<exists>r. fst (exec (sts ! j) (fold (\<lambda>s w. snd (exec s w)) (take j sts) w)) = Inr r"
    and "fst (exec (sts ! k) (fold (\<lambda>s w. snd (exec s w)) (take k sts) w)) = Inl e"
  shows "\<exists>opn'.
           execute_atomic_operation exec db_rollback (new_operation oid otype sts) w
             = Inr (SagaFailure
                      (Some (''Step '' @ str_nat (k + 1) @ '' ('' @ step_name (sts ! k) @
                             '') failed: '' @ e))
                      (step_name (sts ! k)) True oid,
                    opn',
                    db_rollback
                      (fold (\<lambda>s w. snd (exec (rollback_step s) w))
                         (filter has_rollback (rev (take k sts)))
                         (fold (\<lambda>s w. snd (exec s w)) (take (Suc k) sts) w)),
                    map Executed (take (Suc k) sts)
                      @ map (\<lambda>s. Executed (rollback_step s))
                          (filter has_rollback (rev (take k sts)))
                      @ [DbRollback]) \<and>
           failed_step opn' = Some k \<and> completed_steps opn' = [0..<k] \<and>
           rollback_completed opn' \<and> \<not> success opn' \<and> error (steps opn' ! k) = Some e"
proof -
  have rel: "list_all2 (\<lambda>a b. rollback_step a = rollback_step b \<and> has_rollback a = has_rollback b)
      (steps (new_operation oid otype sts)) sts"
    by (simp add: new_operation_def list_all2_refl)
  have len: "length (steps (new_operation oid otype sts)) = length sts"
    and cs: "completed_steps (new_operation oid otype sts) = [0..<0]"
    by (simp_all add: new_operation_def)
  from execute_loop_failure [of 0 k sts "new_operation oid otype sts" exec w e db_rollback "[]",
      OF _ assms(1) len rel cs] assms(2,3)
  show ?thesis
    by (simp add: execute_atomic_operation_def new_operation_def)
qed

theorem failed_step_rollback_trace_witness:
  "\<exists>opn'.
     execute_atomic_operation
       (\<lambda>step w.
          (if operation step \<in> {''cascade_update_on_agent_addition'', ''delete_agent_record''}
           then Inl ''database is locked''
           else if operation step = ''cleanup_validation_artifacts''
           then Inl ''Unknown agent factory operation: cleanup_validation_artifacts''
           else Inr (), w @ [operation step]))
       (\<lambda>w. w @ [''db.rollback''])
       (new_operation ''op1'' ''create_agent''
          [\<lparr>step_name = ''validate_dependencies'', service = ''dependency_manager'',
            operation = ''validate_circular_dependencies'', parameters = [],
            rollback_operation = None, rollback_parameters = None,
            completed = False, result = None, error = None\<rparr>,
           \<lparr>step_name = ''validate_files'', service = ''agent_factory'',
            operation = ''validate_agent_files'', parameters = [],
            rollback_operation = Some ''cleanup_validation_artifacts'',
            rollback_parameters = Some [(''agent_name'', ())],
            completed = False, result = None, error = None\<rparr>,
           \<lparr>step_name = ''create_agent_files'', service = ''agent_factory'',
            operation = ''create_agent'', parameters = [],
            rollback_operation = Some ''delete_agent'', rollback_parameters = Some [(''agent_name'', ())],
            completed = False, result = None, error = None\<rparr>,
           \<lparr>step_name = ''create_database_record'', service = ''database'',
            operation = ''create_agent_record'', parameters = [],
            rollback_operation = Some ''delete_agent_record'',
            rollback_parameters = Some [(''agent_name'', ())],
            completed = False, result = None, error = None\<rparr>,
           \<lparr>step_name = ''update_prompts'', service = ''prompt_manager'',
            operation = ''cascade_update_on_agent_addition'', parameters = [],
            rollback_operation = Some ''cascade_update_on_agent_removal'',
            rollback_parameters = Some [(''agent_name'', ())],
            completed = False, result = None, error = None\<rparr>,
           \<lparr>step_name = ''rebuild_workflow'', service = ''workflow_builder'',
            operation = ''rebuild_workflow_on_agent_change'', parameters = [],
            rollback_operation = Some ''rebuild_workflow_on_agent_change'',
            rollback_parameters = Some [(''operation'', ()), (''agent_name'', ())],
            completed = False, result = None, error = None\<rparr>])
       []
     = Inr (SagaFailure (Some ''Step 5 (update_prompts) failed: database is locked'')
              ''update_prompts'' True ''op1'',
            opn',
            [''validate_circular_dependencies'', ''validate_agent_files'', ''create_agent'',
             ''create_agent_record'', ''cascade_update_on_agent_addition'',
             ''delete_agent_record'', ''delete_agent'', ''cleanup_validation_artifacts'',
             ''db.rollback''],
            [Executed \<lparr>step_name = ''validate_dependencies'', service = ''dependency_manager'',
               operation = ''validate_circular_dependencies'', parameters = [],
               rollback_operation = None, rollback_parameters = None,
               completed = False, result = None, error = None\<rparr>,
             Executed \<lparr>step_name = ''validate_files'', service = ''agent_factory'',
               operation = ''validate_agent_files'', parameters = [],
               rollback_operation = Some ''cleanup_validation_artifacts'',
               rollback_parameters = Some [(''agent_name'', ())],
               completed = False, result = None, error = None\<rparr>,
             Executed \<lparr>step_name = ''create_agent_files'', service = ''agent_factory'',
               operation = ''create_agent'', parameters = [],
               rollback_operation = Some ''delete_agent'',
               rollback_parameters = Some [(''agent_name'', ())],
               completed = False, result = None, error = None\<rparr>,
             Executed \<lparr>step_name = ''create_database_record'', service = ''database'',
               operation = ''create_agent_record'', parameters = [],
               rollback_operation = Some ''delete_agent_record'',
               rollback_parameters = Some [(''agent_name'', ())],
               completed = False, result = None, error = None\<rparr>,
             Executed \<lparr>step_name = ''update_prompts'', service = ''prompt_manager'',
               operation = ''cascade_update_on_agent_addition'', parameters = [],
               rollback_operation = Some ''cascade_update_on_agent_removal'',
               rollback_parameters = Some [(''agent_name'', ())],
               completed = False, result = None, error = None\<rparr>,
             Executed \<lparr>step_name = ''rollback_create_database_record'', service = ''database'',
               operation = ''delete_agent_record'', parameters = [(''agent_name'', ())],
               rollback_operation = None, rollback_parameters = None,
               completed = False, result = None, error = None\<rparr>,
             Executed \<lparr>step_name = ''rollback_create_agent_files'', service = ''agent_factory'',
               operation = ''delete_agent'', parameters = [(''agent_name'', ())],
               rollback_operation = None, rollback_parameters = None,
               completed = False, result = None, error = None\<rparr>,
             Executed \<lparr>step_name = ''rollback_validate_files'', service = ''agent_factory'',
               operation = ''cleanup_validation_artifacts'', parameters = [(''agent_name'', ())],
               rollback_operation = None, rollback_parameters = None,
               completed = False, result = None, error = None\<rparr>,
             DbRollback]) \<and>
     failed_step opn' = Some 4 \<and> completed_steps opn' = [0..<4] \<and>
     rollback_completed opn' \<and> \<not> success opn' \<and>
     error (steps opn' ! 4) = Some ''database is locked''"
proof -
  let ?sts = "[\<lparr>step_name = ''validate_dependencies'', service = ''dependency_manager'',
            operation = ''validate_circular_dependencies'', parameters = [],
            rollback_operation = None, rollback_parameters = None,
            completed = False, result = None, error = None\<rparr>,
           \<lparr>step_name = ''validate_files'', service = ''agent_factory'',
            operation = ''validate_agent_files'', parameters = [],
            rollback_operation = Some ''cleanup_validation_artifacts'',
            rollback_parameters = Some [(''agent_name'', ())],
            completed = False, result = None, error = None\<rparr>,
           \<lparr>step_name = ''create_agent_files'', service = ''agent_factory'',
            operation = ''create_agent'', parameters = [],
            rollback_operation = Some ''delete_agent'', rollback_parameters = Some [(''agent_name'', ())],
            completed = False, result = None, error = None\<rparr>,
           \<lparr>step_name = ''create_database_record'', service = ''database'',
            operation = ''create_agent_record'', parameters = [],
            rollback_operation = Some ''delete_agent_record'',
            rollback_parameters = Some [(''agent_name'', ())],
            completed = False, result = None, error = None\<rparr>,
           \<lparr>step_name = ''update_prompts'', service = ''prompt_manager'',
            operation = ''cascade_update_on_agent_addition'', parameters = [],
            rollback_operation = Some ''cascade_update_on_agent_removal'',
            rollback_parameters = Some [(''agent_name'', ())],
            completed = False, result = None, error = None\<rparr>,
           \<lparr>step_name = ''rebuild_workflow'', service = ''workflow_builder'',
            operation = ''rebuild_workflow_on_agent_change'', parameters = [],
            rollback_operation = Some ''rebuild_workflow_on_agent_change'',
            rollback_parameters = Some [(''operation'', ()), (''agent_name'', ())],
            completed = False, result = None, error = None\<rparr>] :: unit OperationStep list"
  let ?exec = "\<lambda>(step :: unit OperationStep) w.
          (if operation step \<in> {''cascade_update_on_agent_addition'', ''delete_agent_record''}
           then Inl ''database is locked''
           else if operation step = ''cleanup_validation_artifacts''
           then Inl ''Unknown agent factory operation: cleanup_validation_artifacts''
           else Inr (), w @ [operation step])"
  have earlier: "\<forall>j<4. \<exists>r. fst (?exec (?sts ! j)
      (fold (\<lambda>s w. snd (?exec s w)) (take j ?sts) [])) = Inr r"
    by (simp add: eval_nat_numeral less_Suc_eq)
  have failing: "fst (?exec (?sts ! 4) (fold (\<lambda>s w. snd (?exec s w)) (take 4 ?sts) []))
      = Inl ''database is locked''"
    by simp
  from failed_step_rollback_trace [of 4 ?sts ?exec "[]" "''database is locked''"
      "\<lambda>w. w @ [''db.rollback'']" "''op1''" "''create_agent''", OF _ earlier failing]
  show ?thesis
    by (simp add: has_rollback_def rollback_step_def str_nat.simps char_of_five)
qed

lemma char_of_two: "char_of (50 :: nat) = CHR ''2''"
  by code_simp

text \<open>
  Claim C1 as stated fails on a completed step that declares no rollback operation:
  when the second step of a create-agent operation fails, the completed
  \<^verbatim>\<open>validate_dependencies\<close> step receives no rollback call.
\<close>

theorem completed_step_without_rollback_counterexample:
  "execute_atomic_operation
     (\<lambda>step w. (if operation step = ''validate_agent_files'' then Inl ''bad file'' else Inr (), w))
     (\<lambda>w. w)
     (new_operation ''op1'' ''create_agent''
        [\<lparr>step_name = ''validate_dependencies'', service = ''dependency_manager'',
          operation = ''validate_circular_dependencies'', parameters = [],
          rollback_operation = None, rollback_parameters = None,
          completed = False, result = None, error = None\<rparr>,
         \<lparr>step_name = ''validate_files'', service = ''agent_factory'',
          operation = ''validate_agent_files'', parameters = [],
          rollback_operation = Some ''cleanup_validation_artifacts'',
          rollback_parameters = Some [(''agent_name'', ())],
          completed = False, result = None, error = None\<rparr>])
     ()
   = Inr (SagaFailure (Some ''Step 2 (validate_files) failed: bad file'') ''validate_files'' True ''op1'',
          \<lparr>operation_id = ''op1'', operation_type = ''create_agent'',
           steps =
             [\<lparr>step_name = ''validate_dependencies'', service = ''dependency_manager'',
               operation = ''validate_circular_dependencies'', parameters = [],
               rollback_operation = None, rollback_parameters = None,
               completed = True, result = Some (), error = None\<rparr>,
              \<lparr>step_name = ''validate_files'', service = ''agent_factory'',
               operation = ''validate_agent_files'', parameters = [],
               rollback_operation = Some ''cleanup_validation_artifacts'',
               rollback_parameters = Some [(''agent_name'', ())],
               completed = False, result = None, error = Some ''bad file''\<rparr>],
           completed_steps = [0], failed_step = Some 1, success = False,
           error_message = Some ''Step 2 (validate_files) failed: bad file'',
           rollback_completed = True\<rparr>,
          (),
          [Executed \<lparr>step_name = ''validate_dependencies'', service = ''dependency_manager'',
             operation = ''validate_circular_dependencies'', parameters = [],
             rollback_operation = None, rollback_parameters = None,
             completed = False, result = None, error = None\<rparr>,
           Executed \<lparr>step_name = ''validate_files'', service = ''agent_factory'',
             operation = ''validate_agent_files'', parameters = [],
             rollback_operation = Some ''cleanup_validation_artifacts'',
             rollback_parameters = Some [(''agent_name'', ())],
             completed = False, result = None, error = None\<rparr>,
           DbRollback])"
  by (simp add: execute_atomic_operation_def new_operation_def rollback_operation_of_def
        has_rollback_def rollback_step_def str_nat.simps char_of_two)

section \<open>Loops that return\<close>

lemma for_each_total:
  assumes "I st" and "\<And>x s. x \<in> set xs \<Longrightarrow> I s \<Longrightarrow> \<exists>s'. body x s = Some s' \<and> I s'"
  shows "\<exists>st'. for_each body xs st = Some st' \<and> I st'"
  using assms
proof (induction xs arbitrary: st)
  case Nil
  then show ?case by simp
next
  case (Cons x xs)
  from Cons.prems obtain s1 where s1: "body x st = Some s1" "I s1"
    by (meson list.set_intros(1))
  from Cons.IH [OF s1(2)] Cons.prems(2) obtain st' where
    "for_each body xs s1 = Some st'" "I st'"
    by (meson list.set_intros(2))
  with s1 show ?case by simp
qed

lemma for_each_invariant:
  assumes "for_each body xs st = Some st'" and "I st"
    and "\<And>x s s'. x \<in> set xs \<Longrightarrow> I s \<Longrightarrow> body x s = Some s' \<Longrightarrow> I s'"
  shows "I st'"
  using assms
proof (induction xs arbitrary: st)
  case Nil
  then show ?case by simp
next
  case (Cons x xs)
  from Cons.prems(1) obtain s1 where s1: "body x st = Some s1" "for_each body xs s1 = Some st'"
    by (auto split: option.splits)
  have "I s1" using Cons.prems(2,3) s1(1) by (meson list.set_intros(1))
  from Cons.IH [OF s1(2) this] Cons.prems(3) show ?case
    by (meson list.set_intros(2))
qed


section \<open>The dependency chain length\<close>

lemma chain_length_returns:
  "card (fst ` set nodes - seen) < fuel \<Longrightarrow>
   \<exists>n. calculate_dependency_chain_length fuel agent nodes seen = Some n \<and> 0 \<le> n \<and>
       (agent \<in> seen \<longrightarrow> n = 0)"
proof (induction fuel arbitrary: agent seen)
  case 0
  then show ?case by simp
next
  case (Suc fuel)
  show ?case
  proof (cases "agent \<in> seen")
    case True
    then show ?thesis by simp
  next
    case False
    show ?thesis
    proof (cases "map_of nodes agent")
      case None
      with False show ?thesis by simp
    next
      case (Some node)
      then have key: "agent \<in> fst ` set nodes"
        by (force dest: map_of_SomeD)
      have "card (fst ` set nodes - insert agent seen) < card (fst ` set nodes - seen)"
        using key False by (intro psubset_card_mono) auto
      with Suc.prems have small: "card (fst ` set nodes - insert agent seen) < fuel"
        by simp
      have "\<exists>m. for_each
                 (\<lambda>dependency max_depth.
                    map_option (max max_depth)
                      (calculate_dependency_chain_length fuel dependency nodes (insert agent seen)))
                 (dependencies node) 0 = Some m \<and> 0 \<le> m"
      proof (rule for_each_total)
        show "(0::int) \<le> 0" by simp
      next
        fix x and s :: int
        assume "0 \<le> s"
        from Suc.IH [OF small, of x] obtain n where
          "calculate_dependency_chain_length fuel x nodes (insert agent seen) = Some n" "0 \<le> n"
          by blast
        then show "\<exists>s'. map_option (max s)
              (calculate_dependency_chain_length fuel x nodes (insert agent seen)) = Some s' \<and> 0 \<le> s'"
          by simp
      qed
      then obtain m where "for_each
                 (\<lambda>dependency max_depth.
                    map_option (max max_depth)
                      (calculate_dependency_chain_length fuel dependency nodes (insert agent seen)))
                 (dependencies node) 0 = Some m" "0 \<le> m"
        by blast
      with False Some show ?thesis by simp
    qed
  qed
qed

text \<open>
  Claim C9: for every graph, with or without cycles, every starting name and every
  set of names already seen, \<^verbatim>\<open>_calculate_dependency_chain_length\<close> returns
  an integer once the recursion may go deeper than the number of nodes; the integer is
  not negative, and it is 0 for a name that is already in the set.
\<close>

theorem chain_length_total:
  assumes "length nodes < fuel"
  shows "\<exists>n. calculate_dependency_chain_length fuel agent nodes seen = Some n \<and> 0 \<le> n \<and>
           (agent \<in> seen \<longrightarrow> n = 0)"
proof -
  have "card (fst ` set nodes - seen) \<le> card (fst ` set nodes)"
    by (simp add: card_mono)
  also have "\<dots> \<le> length nodes"
    by (metis card_image_le card_length le_trans List.finite_set)
  finally show ?thesis
    using assms chain_length_returns [of nodes seen fuel agent] by simp
qed

theorem chain_length_total_witness:
  "\<exists>n. calculate_dependency_chain_length 3 ''a''
          [(''a'', \<lparr>name = ''a'', ident = 1, dependencies = [''b''], dependents = [''b'']\<rparr>),
           (''b'', \<lparr>name = ''b'', ident = 2, dependencies = [''a''], dependents = [''a'']\<rparr>)] {''b''}
        = Some n \<and> 0 \<le> n \<and> (''a'' \<in> {''b''} \<longrightarrow> n = 0)"
  using chain_length_total
    [of "[(''a'', \<lparr>name = ''a'', ident = 1, dependencies = [''b''], dependents = [''b'']\<rparr>),
          (''b'', \<lparr>name = ''b'', ident = 2, dependencies = [''a''], dependents = [''a'']\<rparr>)]"
        3 "''a''" "{''b''}"]
  by simp

lemma chain_length_cycle_example:
  "calculate_dependency_chain_length 3 ''a''
          [(''a'', \<lparr>name = ''a'', ident = 1, dependencies = [''b''], dependents = [''b'']\<rparr>),
           (''b'', \<lparr>name = ''b'', ident = 2, dependencies = [''a''], dependents = [''a'']\<rparr>)] {}
        = Some 2"
  by (simp add: numeral_3_eq_3)

section \<open>Cycle detection: the depth-first walk\<close>

lemma dfs_Suc:
  "dfs (Suc fuel) nodes n st =
     (if n \<in> set (path st) then
        Some (st\<lparr>circular_deps := circular_deps st @
                 [drop (list_index (path st) n) (path st) @ [n]]\<rparr>)
      else if n \<in> visited st then Some st
      else map_option (\<lambda>s. s\<lparr>path := butlast (path s)\<rparr>)
             (for_each (dfs fuel nodes) (successors nodes n)
                (st\<lparr>visited := insert n (visited st), path := path st @ [n]\<rparr>)))"
  by (auto simp: successors_def split: option.splits)

declare dfs.simps(2) [simp del]

lemma dfs_frame:
  "dfs fuel nodes n st = Some st' \<Longrightarrow> set (path st) \<subseteq> visited st \<Longrightarrow>
   path st' = path st \<and> visited st \<subseteq> visited st' \<and> n \<in> visited st' \<and>
   (\<exists>extra. circular_deps st' = circular_deps st @ extra)"
proof (induction fuel arbitrary: n st st')
  case 0
  then show ?case by simp
next
  case (Suc fuel)
  let ?st1 = "st\<lparr>visited := insert n (visited st), path := path st @ [n]\<rparr>"
  show ?case
  proof (cases "n \<in> set (path st) \<or> n \<in> visited st")
    case True
    with Suc.prems show ?thesis
      by (auto simp: dfs_Suc split: if_splits)
  next
    case False
    with Suc.prems(1) obtain s2 where
      loop: "for_each (dfs fuel nodes) (successors nodes n) ?st1 = Some s2"
      and st': "st' = s2\<lparr>path := butlast (path s2)\<rparr>"
      by (auto simp: dfs_Suc)
    let ?I = "\<lambda>s. path s = path ?st1 \<and> visited ?st1 \<subseteq> visited s \<and>
                  (\<exists>extra. circular_deps s = circular_deps st @ extra)"
    have "?I s2"
    proof (rule for_each_invariant [OF loop, where I = ?I])
      show "?I ?st1" by simp
    next
      fix x and s s' :: dfs_state
      assume I: "?I s" and step: "dfs fuel nodes x s = Some s'"
      from I Suc.prems(2) have "set (path s) \<subseteq> visited s" by auto
      from Suc.IH [OF step this] I show "?I s'" by auto
    qed
    with st' show ?thesis by auto
  qed
qed

lemma dfs_path: "dfs fuel nodes n st = Some st' \<Longrightarrow> path st' = path st"
proof (induction fuel arbitrary: n st st')
  case 0
  then show ?case by simp
next
  case (Suc fuel)
  let ?st1 = "st\<lparr>visited := insert n (visited st), path := path st @ [n]\<rparr>"
  show ?case
  proof (cases "n \<in> set (path st) \<or> n \<in> visited st")
    case True
    with Suc.prems show ?thesis
      by (auto simp: dfs_Suc split: if_splits)
  next
    case False
    with Suc.prems(1) obtain s2 where
      loop: "for_each (dfs fuel nodes) (successors nodes n) ?st1 = Some s2"
      and st': "st' = s2\<lparr>path := butlast (path s2)\<rparr>"
      by (auto simp: dfs_Suc)
    have "path s2 = path ?st1"
      by (rule for_each_invariant [OF loop, where I = "\<lambda>s. path s = path ?st1"])
         (auto dest: Suc.IH)
    with st' show ?thesis by simp
  qed
qed

lemma successors_key:
  assumes "x \<in> set (successors nodes n)"
  shows "n \<in> fst ` set nodes"
proof (cases "map_of nodes n")
  case None
  with assms show ?thesis by (simp add: successors_def)
next
  case (Some node)
  then have "(n, node) \<in> set nodes" by (rule map_of_SomeD)
  then show ?thesis by force
qed

lemma dfs_returns:
  "card (fst ` set nodes - set (path st)) < fuel \<Longrightarrow> \<exists>st'. dfs fuel nodes n st = Some st'"
proof (induction fuel arbitrary: n st)
  case 0
  then show ?case by simp
next
  case (Suc fuel)
  let ?st1 = "st\<lparr>visited := insert n (visited st), path := path st @ [n]\<rparr>"
  show ?case
  proof (cases "n \<in> set (path st) \<or> n \<in> visited st")
    case True
    then show ?thesis by (auto simp: dfs_Suc)
  next
    case False
    have "\<exists>s2. for_each (dfs fuel nodes) (successors nodes n) ?st1 = Some s2 \<and> path s2 = path ?st1"
    proof (rule for_each_total [where I = "\<lambda>s. path s = path ?st1"])
      show "path ?st1 = path ?st1" ..
    next
      fix x and s :: dfs_state
      assume x: "x \<in> set (successors nodes n)" and s: "path s = path ?st1"
      from x have key: "n \<in> fst ` set nodes" by (rule successors_key)
      have "card (fst ` set nodes - set (path s)) < card (fst ` set nodes - set (path st))"
        using key False s by (intro psubset_card_mono) auto
      with Suc.prems have "card (fst ` set nodes - set (path s)) < fuel" by simp
      from Suc.IH [OF this, of x] obtain s' where "dfs fuel nodes x s = Some s'" by blast
      with s dfs_path [OF this] show "\<exists>s'. dfs fuel nodes x s = Some s' \<and> path s' = path ?st1"
        by simp
    qed
    with False show ?thesis by (auto simp: dfs_Suc)
  qed
qed

lemma dfs_acyclic_no_cycle:
  assumes "acyclic (dependency_edges nodes)"
  shows "dfs fuel nodes n st = Some st' \<Longrightarrow>
         \<forall>x \<in> set (path st). (x, n) \<in> (dependency_edges nodes)\<^sup>+ \<Longrightarrow>
         circular_deps st' = circular_deps st"
proof (induction fuel arbitrary: n st st')
  case 0
  then show ?case by simp
next
  case (Suc fuel)
  let ?st1 = "st\<lparr>visited := insert n (visited st), path := path st @ [n]\<rparr>"
  have notin: "n \<notin> set (path st)"
  proof
    assume "n \<in> set (path st)"
    with Suc.prems(2) have "(n, n) \<in> (dependency_edges nodes)\<^sup>+" by blast
    with assms show False by (simp add: acyclic_def)
  qed
  show ?case
  proof (cases "n \<in> visited st")
    case True
    with notin Suc.prems(1) show ?thesis by (simp add: dfs_Suc)
  next
    case False
    with notin Suc.prems(1) obtain s2 where
      loop: "for_each (dfs fuel nodes) (successors nodes n) ?st1 = Some s2"
      and st': "st' = s2\<lparr>path := butlast (path s2)\<rparr>"
      by (auto simp: dfs_Suc)
    let ?I = "\<lambda>s. path s = path ?st1 \<and> circular_deps s = circular_deps st"
    have "?I s2"
    proof (rule for_each_invariant [OF loop, where I = ?I])
      show "?I ?st1" by simp
    next
      fix x and s s' :: dfs_state
      assume x: "x \<in> set (successors nodes n)" and I: "?I s"
        and step: "dfs fuel nodes x s = Some s'"
      from x have edge: "(n, x) \<in> dependency_edges nodes"
        by (simp add: dependency_edges_def)
      have "\<forall>y \<in> set (path s). (y, x) \<in> (dependency_edges nodes)\<^sup>+"
      proof
        fix y assume "y \<in> set (path s)"
        with I have "y \<in> set (path st) \<or> y = n" by auto
        with Suc.prems(2) edge show "(y, x) \<in> (dependency_edges nodes)\<^sup>+"
          by (auto intro: trancl_into_trancl)
      qed
      from Suc.IH [OF step this] dfs_path [OF step] I show "?I s'" by simp
    qed
    with st' show ?thesis by simp
  qed
qed

text \<open>
  Claim C6: on a graph whose dependency relation has no cycle,
  \<^verbatim>\<open>detect_circular_dependencies\<close> returns, and returns the empty list.
\<close>

theorem acyclic_graph_reports_no_cycle:
  assumes "acyclic (dependency_edges nodes)" and "length nodes < fuel"
  shows "detect_circular_dependencies fuel nodes = Some []"
proof -
  let ?I = "\<lambda>s. path s = [] \<and> circular_deps s = []"
  have bound: "card (fst ` set nodes) < fuel"
    using assms(2) by (metis card_image_le card_length le_trans List.finite_set not_le)
  have "\<exists>st'. for_each (dfs fuel nodes) (map fst nodes)
                 \<lparr>circular_deps = [], visited = {}, path = []\<rparr> = Some st' \<and> ?I st'"
  proof (rule for_each_total [where I = ?I])
    show "?I \<lparr>circular_deps = [], visited = {}, path = []\<rparr>" by simp
  next
    fix x and s :: dfs_state
    assume I: "?I s"
    with bound have "card (fst ` set nodes - set (path s)) < fuel" by simp
    from dfs_returns [OF this, of x] obtain s' where s': "dfs fuel nodes x s = Some s'"
      by blast
    from dfs_acyclic_no_cycle [OF assms(1) s'] dfs_path [OF s'] I
    show "\<exists>s'. dfs fuel nodes x s = Some s' \<and> ?I s'"
      using s' by simp
  qed
  then show ?thesis
    by (auto simp: detect_circular_dependencies_def)
qed

theorem acyclic_graph_reports_no_cycle_witness:
  "detect_circular_dependencies 4
     [(''M'', \<lparr>name = ''M'', ident = 1, dependencies = [], dependents = [''A'', ''S'']\<rparr>),
      (''A'', \<lparr>name = ''A'', ident = 2, dependencies = [''M''], dependents = [''S'']\<rparr>),
      (''S'', \<lparr>name = ''S'', ident = 3, dependencies = [''M'', ''A''], dependents = []\<rparr>)]
   = Some []"
proof (rule acyclic_graph_reports_no_cycle)
  show "acyclic (dependency_edges
     [(''M'', \<lparr>name = ''M'', ident = 1, dependencies = [], dependents = [''A'', ''S'']\<rparr>),
      (''A'', \<lparr>name = ''A'', ident = 2, dependencies = [''M''], dependents = [''S'']\<rparr>),
      (''S'', \<lparr>name = ''S'', ident = 3, dependencies = [''M'', ''A''], dependents = []\<rparr>)])"
    by (rule acyclicI_order [where f = "\<lambda>a. if a = ''S'' then 2 else if a = ''A'' then 1 else (0::nat)"])
       (auto simp: dependency_edges_def successors_def split: if_splits)
qed simp

section \<open>Cycle detection: every cycle is found\<close>

lemma dfs_loop_frame:
  "for_each (dfs fuel nodes) ds st = Some st' \<Longrightarrow> set (path st) \<subseteq> visited st \<Longrightarrow>
   path st' = path st \<and> visited st \<subseteq> visited st' \<and> set ds \<subseteq> visited st' \<and>
   (\<exists>extra. circular_deps st' = circular_deps st @ extra)"
proof (induction ds arbitrary: st)
  case Nil
  then show ?case by simp
next
  case (Cons d ds)
  from Cons.prems(1) obtain s1 where s1: "dfs fuel nodes d st = Some s1"
    and rest: "for_each (dfs fuel nodes) ds s1 = Some st'"
    by (auto split: option.splits)
  from dfs_frame [OF s1 Cons.prems(2)] have f1: "path s1 = path st" "visited st \<subseteq> visited s1"
    "d \<in> visited s1" "\<exists>extra. circular_deps s1 = circular_deps st @ extra"
    by auto
  with Cons.prems(2) have "set (path s1) \<subseteq> visited s1" by auto
  from Cons.IH [OF rest this] f1 show ?case by auto
qed

lemma list_index_less: "x \<in> set xs \<Longrightarrow> list_index xs x < length xs"
  unfolding list_index_def by (induction xs) auto

lemma reported_cycle_members:
  assumes "c \<in> set p"
  shows "c \<in> set (drop (list_index p c) p @ [c])"
    and "last p \<in> set (drop (list_index p c) p @ [c])"
proof -
  show "c \<in> set (drop (list_index p c) p @ [c])" by simp
  from assms have "list_index p c < length p" by (rule list_index_less)
  then have "drop (list_index p c) p \<noteq> []" "last (drop (list_index p c) p) = last p"
    by simp_all
  then have "last p \<in> set (drop (list_index p c) p)"
    by (metis last_in_set)
  then show "last p \<in> set (drop (list_index p c) p @ [c])" by simp
qed

lemma dfs_loop_hit:
  "for_each (dfs fuel nodes) ds st = Some st' \<Longrightarrow> c \<in> set ds \<Longrightarrow> c \<in> set (path st) \<Longrightarrow>
   set (path st) \<subseteq> visited st \<Longrightarrow>
   \<exists>cycle \<in> set (circular_deps st'). c \<in> set cycle \<and> last (path st) \<in> set cycle"
proof (induction ds arbitrary: st)
  case Nil
  then show ?case by simp
next
  case (Cons d ds)
  from Cons.prems(1) obtain s1 where s1: "dfs fuel nodes d st = Some s1"
    and rest: "for_each (dfs fuel nodes) ds s1 = Some st'"
    by (auto split: option.splits)
  from dfs_frame [OF s1 Cons.prems(4)] have f1: "path s1 = path st" "visited st \<subseteq> visited s1"
    by auto
  with Cons.prems(4) have pv1: "set (path s1) \<subseteq> visited s1" by auto
  show ?case
  proof (cases "d = c")
    case True
    from s1 obtain fuel' where fuel: "fuel = Suc fuel'" by (cases fuel) auto
    with s1 True Cons.prems(3) have
      "circular_deps s1 = circular_deps st @ [drop (list_index (path st) c) (path st) @ [c]]"
      by (auto simp: dfs_Suc)
    then have "drop (list_index (path st) c) (path st) @ [c] \<in> set (circular_deps s1)" by simp
    moreover from dfs_loop_frame [OF rest pv1]
    have "set (circular_deps s1) \<subseteq> set (circular_deps st')" by auto
    ultimately have "drop (list_index (path st) c) (path st) @ [c] \<in> set (circular_deps st')"
      by blast
    with reported_cycle_members [OF Cons.prems(3)] show ?thesis by blast
  next
    case False
    with Cons.prems(2) have "c \<in> set ds" by simp
    from Cons.IH [OF rest this] Cons.prems(3) f1 pv1 show ?thesis by simp
  qed
qed

lemma dfs_back_edge:
  assumes edge: "c \<in> set (successors nodes p)"
  shows "dfs fuel nodes n st = Some st' \<Longrightarrow> c \<in> set (path st) \<Longrightarrow>
         set (path st) \<subseteq> visited st \<Longrightarrow> p \<notin> visited st \<Longrightarrow> p \<in> visited st' \<Longrightarrow>
         \<exists>cycle \<in> set (circular_deps st'). p \<in> set cycle \<and> c \<in> set cycle"
proof (induction fuel arbitrary: n st st')
  case 0
  then show ?case by simp
next
  case (Suc fuel)
  let ?st1 = "st\<lparr>visited := insert n (visited st), path := path st @ [n]\<rparr>"
  let ?good = "\<lambda>s :: dfs_state. \<exists>cycle \<in> set (circular_deps s). p \<in> set cycle \<and> c \<in> set cycle"
  have fresh: "n \<notin> set (path st)" "n \<notin> visited st"
    using Suc.prems(1,4,5) by (auto simp: dfs_Suc split: if_splits)
  with Suc.prems(1) obtain s2 where
    loop: "for_each (dfs fuel nodes) (successors nodes n) ?st1 = Some s2"
    and st': "st' = s2\<lparr>path := butlast (path s2)\<rparr>"
    by (auto simp: dfs_Suc)
  have pv1: "set (path ?st1) \<subseteq> visited ?st1" using Suc.prems(3) by auto
  have "?good s2"
  proof (cases "n = p")
    case True
    from dfs_loop_hit [OF loop _ _ pv1, of c] edge True Suc.prems(2)
    show ?thesis by auto
  next
    case False
    let ?J = "\<lambda>s. path s = path ?st1 \<and> set (path s) \<subseteq> visited s \<and> (p \<notin> visited s \<or> ?good s)"
    have "?J s2"
    proof (rule for_each_invariant [OF loop, where I = ?J])
      show "?J ?st1" using Suc.prems(3,4) False by auto
    next
      fix x and s s' :: dfs_state
      assume J: "?J s" and step: "dfs fuel nodes x s = Some s'"
      from J have pv: "set (path s) \<subseteq> visited s" by blast
      from dfs_frame [OF step pv] have f: "path s' = path s" "visited s \<subseteq> visited s'"
        "\<exists>extra. circular_deps s' = circular_deps s @ extra"
        by auto
      have "p \<notin> visited s' \<or> ?good s'"
      proof (cases "?good s")
        case True
        with f(3) show ?thesis by auto
      next
        case False
        with J have unv: "p \<notin> visited s" by simp
        from J Suc.prems(2) have "c \<in> set (path s)" by simp
        from Suc.IH [OF step this pv unv] show ?thesis by blast
      qed
      moreover have "set (path s') \<subseteq> visited s'" using f(1,2) pv by auto
      ultimately show "?J s'" using J f(1) by simp
    qed
    moreover from Suc.prems(5) st' have "p \<in> visited s2" by simp
    ultimately show ?thesis by blast
  qed
  with st' show ?case by simp
qed

lemma dfs_loop_back_edge:
  assumes edge: "c \<in> set (successors nodes p)"
    and loop: "for_each (dfs fuel nodes) ds st = Some st'"
    and "c \<in> set (path st)" "set (path st) \<subseteq> visited st" "p \<notin> visited st" "p \<in> visited st'"
  shows "\<exists>cycle \<in> set (circular_deps st'). p \<in> set cycle \<and> c \<in> set cycle"
proof -
  let ?good = "\<lambda>s :: dfs_state. \<exists>cycle \<in> set (circular_deps s). p \<in> set cycle \<and> c \<in> set cycle"
  let ?J = "\<lambda>s. path s = path st \<and> set (path s) \<subseteq> visited s \<and> (p \<notin> visited s \<or> ?good s)"
  have "?J st'"
  proof (rule for_each_invariant [OF loop, where I = ?J])
    show "?J st" using assms by auto
  next
    fix x and s s' :: dfs_state
    assume J: "?J s" and step: "dfs fuel nodes x s = Some s'"
    from J have pv: "set (path s) \<subseteq> visited s" by blast
    from dfs_frame [OF step pv] have f: "path s' = path s" "visited s \<subseteq> visited s'"
      "\<exists>extra. circular_deps s' = circular_deps s @ extra"
      by auto
    have "p \<notin> visited s' \<or> ?good s'"
    proof (cases "?good s")
      case True
      with f(3) show ?thesis by auto
    next
      case False
      with J have unv: "p \<notin> visited s" by simp
      from J assms(3) have "c \<in> set (path s)" by simp
      from dfs_back_edge [OF edge step this pv unv] show ?thesis by blast
    qed
    moreover have "set (path s') \<subseteq> visited s'" using f(1,2) pv by auto
    ultimately show "?J s'" using J f(1) by simp
  qed
  with assms(6) show ?thesis by blast
qed

lemma dfs_closed:
  "dfs fuel nodes n st = Some st' \<Longrightarrow> set (path st) \<subseteq> visited st \<Longrightarrow>
   \<forall>v \<in> visited st - set (path st). set (successors nodes v) \<subseteq> visited st \<Longrightarrow>
   \<forall>v \<in> visited st' - set (path st'). set (successors nodes v) \<subseteq> visited st'"
proof (induction fuel arbitrary: n st st')
  case 0
  then show ?case by simp
next
  case (Suc fuel)
  let ?st1 = "st\<lparr>visited := insert n (visited st), path := path st @ [n]\<rparr>"
  show ?case
  proof (cases "n \<in> set (path st) \<or> n \<in> visited st")
    case True
    with Suc.prems(1) have "visited st' = visited st" "path st' = path st"
      by (auto simp: dfs_Suc split: if_splits)
    with Suc.prems(3) show ?thesis by simp
  next
    case False
    with Suc.prems(1) obtain s2 where
      loop: "for_each (dfs fuel nodes) (successors nodes n) ?st1 = Some s2"
      and st': "st' = s2\<lparr>path := butlast (path s2)\<rparr>"
      by (auto simp: dfs_Suc)
    have pv1: "set (path ?st1) \<subseteq> visited ?st1" using Suc.prems(2) by auto
    let ?J = "\<lambda>s. set (path s) \<subseteq> visited s \<and>
                (\<forall>v \<in> visited s - set (path s). set (successors nodes v) \<subseteq> visited s)"
    have "?J s2"
    proof (rule for_each_invariant [OF loop, where I = ?J])
      show "?J ?st1" using Suc.prems(2,3) by auto
    next
      fix x and s s' :: dfs_state
      assume J: "?J s" and step: "dfs fuel nodes x s = Some s'"
      from J have pv: "set (path s) \<subseteq> visited s" by blast
      from dfs_frame [OF step pv] have "path s' = path s" "visited s \<subseteq> visited s'" by auto
      with pv Suc.IH [OF step pv] J show "?J s'" by auto
    qed
    moreover from dfs_loop_frame [OF loop pv1]
    have "path s2 = path st @ [n]" "set (successors nodes n) \<subseteq> visited s2" by auto
    ultimately show ?thesis using st' by auto
  qed
qed

lemma dfs_loop_closed:
  assumes loop: "for_each (dfs fuel nodes) ds st = Some st'"
    and "set (path st) \<subseteq> visited st"
    and "\<forall>v \<in> visited st - set (path st). set (successors nodes v) \<subseteq> visited st"
  shows "\<forall>v \<in> visited st' - set (path st'). set (successors nodes v) \<subseteq> visited st'"
proof -
  let ?J = "\<lambda>s. set (path s) \<subseteq> visited s \<and>
              (\<forall>v \<in> visited s - set (path s). set (successors nodes v) \<subseteq> visited s)"
  have "?J st'"
  proof (rule for_each_invariant [OF loop, where I = ?J])
    show "?J st" using assms by blast
  next
    fix x and s s' :: dfs_state
    assume J: "?J s" and step: "dfs fuel nodes x s = Some s'"
    from J have pv: "set (path s) \<subseteq> visited s" by blast
    from dfs_frame [OF step pv] have "path s' = path s" "visited s \<subseteq> visited s'" by auto
    with pv have "set (path s') \<subseteq> visited s'" by auto
    moreover from J have "\<forall>v \<in> visited s - set (path s). set (successors nodes v) \<subseteq> visited s"
      by blast
    from dfs_closed [OF step pv this]
    have "\<forall>v \<in> visited s' - set (path s'). set (successors nodes v) \<subseteq> visited s'" .
    ultimately show "?J s'" by blast
  qed
  then show ?thesis by blast
qed

lemma dfs_enters_cycle:
  assumes pred: "\<And>c. c \<in> Cy \<Longrightarrow>
      \<exists>p \<in> Cy. (p, c) \<in> Pr \<and> c \<in> set (successors nodes p) \<and>
        (c, p) \<in> (Restr (dependency_edges nodes) Cy)\<^sup>*"
  shows "dfs fuel nodes n st = Some st' \<Longrightarrow> set (path st) \<subseteq> visited st \<Longrightarrow>
         \<forall>v \<in> visited st - set (path st). set (successors nodes v) \<subseteq> visited st \<Longrightarrow>
         Cy \<inter> visited st = {} \<Longrightarrow> Cy \<inter> visited st' \<noteq> {} \<Longrightarrow>
         \<exists>cycle \<in> set (circular_deps st'). \<exists>p c. (p, c) \<in> Pr \<and> p \<in> set cycle \<and> c \<in> set cycle"
proof (induction fuel arbitrary: n st st')
  case 0
  then show ?case by simp
next
  case (Suc fuel)
  let ?st1 = "st\<lparr>visited := insert n (visited st), path := path st @ [n]\<rparr>"
  let ?good = "\<lambda>s :: dfs_state.
      \<exists>cycle \<in> set (circular_deps s). \<exists>p c. (p, c) \<in> Pr \<and> p \<in> set cycle \<and> c \<in> set cycle"
  let ?closed = "\<lambda>s :: dfs_state.
      \<forall>v \<in> visited s - set (path s). set (successors nodes v) \<subseteq> visited s"
  have fresh: "n \<notin> set (path st)" "n \<notin> visited st"
    using Suc.prems(1,4,5) by (auto simp: dfs_Suc split: if_splits)
  with Suc.prems(1) obtain s2 where
    loop: "for_each (dfs fuel nodes) (successors nodes n) ?st1 = Some s2"
    and st': "st' = s2\<lparr>path := butlast (path s2)\<rparr>"
    by (auto simp: dfs_Suc)
  have pv1: "set (path ?st1) \<subseteq> visited ?st1" using Suc.prems(2) by auto
  have closed1: "?closed ?st1" using Suc.prems(3) by auto
  from dfs_loop_frame [OF loop pv1]
  have f2: "path s2 = path st @ [n]" "insert n (visited st) \<subseteq> visited s2"
    "set (successors nodes n) \<subseteq> visited s2"
    by auto
  have "?good s2"
  proof (cases "n \<in> Cy")
    case True
    from pred [OF True] obtain p where p: "p \<in> Cy" "(p, n) \<in> Pr"
      "n \<in> set (successors nodes p)" "(n, p) \<in> (Restr (dependency_edges nodes) Cy)\<^sup>*"
      by blast
    show ?thesis
    proof (cases "p = n")
      case True
      from dfs_loop_hit [OF loop _ _ pv1, of n] p(3) True
      obtain cycle where "cycle \<in> set (circular_deps s2)" "n \<in> set cycle" by auto
      with p(2) True show ?thesis by blast
    next
      case False
      have unv: "p \<notin> visited ?st1" using p(1) Suc.prems(4) False by auto
      from dfs_loop_closed [OF loop pv1 closed1] have closed2: "?closed s2" .
      have off_path: "Cy \<inter> set (path st) = {}" using Suc.prems(2,4) by blast
      have "v \<in> visited s2" if "(n, v) \<in> (Restr (dependency_edges nodes) Cy)\<^sup>*" for v
        using that
      proof (induction rule: rtrancl_induct)
        case base
        from f2(2) show ?case by simp
      next
        case (step y z)
        from step.hyps(2) have z: "z \<in> set (successors nodes y)" and y: "y \<in> Cy"
          by (auto simp: dependency_edges_def)
        show ?case
        proof (cases "y = n")
          case True
          with z f2(3) show ?thesis by blast
        next
          case False
          with y off_path f2(1) have "y \<notin> set (path s2)" by auto
          with step.IH closed2 z show ?thesis by blast
        qed
      qed
      from this [OF p(4)] have "p \<in> visited s2" .
      from dfs_loop_back_edge [OF p(3) loop _ pv1 unv this]
      obtain cycle where "cycle \<in> set (circular_deps s2)" "p \<in> set cycle" "n \<in> set cycle"
        by auto
      with p(2) show ?thesis by blast
    qed
  next
    case False
    let ?J = "\<lambda>s. set (path s) \<subseteq> visited s \<and> ?closed s \<and> (Cy \<inter> visited s = {} \<or> ?good s)"
    have "?J s2"
    proof (rule for_each_invariant [OF loop, where I = ?J])
      show "?J ?st1" using pv1 closed1 Suc.prems(4) False by auto
    next
      fix x and s s' :: dfs_state
      assume J: "?J s" and step: "dfs fuel nodes x s = Some s'"
      from J have pv: "set (path s) \<subseteq> visited s" and cl: "?closed s" by blast+
      from dfs_frame [OF step pv] have f: "path s' = path s" "visited s \<subseteq> visited s'"
        "\<exists>extra. circular_deps s' = circular_deps s @ extra"
        by auto
      from f(1,2) pv have pv': "set (path s') \<subseteq> visited s'" by auto
      from dfs_closed [OF step pv cl] have cl': "?closed s'" .
      have "Cy \<inter> visited s' = {} \<or> ?good s'"
      proof (cases "?good s")
        case True
        with f(3) show ?thesis by auto
      next
        case False
        with J have "Cy \<inter> visited s = {}" by blast
        from Suc.IH [OF step pv cl this] show ?thesis by blast
      qed
      with pv' cl' show "?J s'" by blast
    qed
    moreover from Suc.prems(5) st' have "Cy \<inter> visited s2 \<noteq> {}" by simp
    ultimately show ?thesis by blast
  qed
  with st' show ?case by simp
qed

lemma detect_returns:
  assumes "length nodes < fuel"
  shows "\<exists>st'. for_each (dfs fuel nodes) (map fst nodes)
                \<lparr>circular_deps = [], visited = {}, path = []\<rparr> = Some st'"
proof -
  have bound: "card (fst ` set nodes) < fuel"
    using assms by (metis card_image_le card_length le_trans List.finite_set not_le)
  have "\<exists>st'. for_each (dfs fuel nodes) (map fst nodes)
                 \<lparr>circular_deps = [], visited = {}, path = []\<rparr> = Some st' \<and> path st' = []"
  proof (rule for_each_total [where I = "\<lambda>s. path s = []"])
    show "path \<lparr>circular_deps = [], visited = {}, path = []\<rparr> = []" by simp
  next
    fix x and s :: dfs_state
    assume I: "path s = []"
    with bound have "card (fst ` set nodes - set (path s)) < fuel" by simp
    from dfs_returns [OF this, of x] obtain s' where s': "dfs fuel nodes x s = Some s'"
      by blast
    with dfs_path [OF s'] I show "\<exists>s'. dfs fuel nodes x s = Some s' \<and> path s' = []"
      by simp
  qed
  then show ?thesis by blast
qed

lemma detect_finds_cycle:
  assumes pred: "\<And>c. c \<in> Cy \<Longrightarrow>
      \<exists>p \<in> Cy. (p, c) \<in> Pr \<and> c \<in> set (successors nodes p) \<and>
        (c, p) \<in> (Restr (dependency_edges nodes) Cy)\<^sup>*"
    and nonempty: "Cy \<noteq> {}" and fuel: "length nodes < fuel"
  shows "\<exists>cycles. detect_circular_dependencies fuel nodes = Some cycles \<and>
           (\<exists>cycle \<in> set cycles. \<exists>p c. (p, c) \<in> Pr \<and> p \<in> set cycle \<and> c \<in> set cycle)"
proof -
  let ?init = "\<lparr>circular_deps = [], visited = {}, path = []\<rparr>"
  let ?good = "\<lambda>s :: dfs_state.
      \<exists>cycle \<in> set (circular_deps s). \<exists>p c. (p, c) \<in> Pr \<and> p \<in> set cycle \<and> c \<in> set cycle"
  let ?closed = "\<lambda>s :: dfs_state.
      \<forall>v \<in> visited s - set (path s). set (successors nodes v) \<subseteq> visited s"
  from detect_returns [OF fuel] obtain final where
    run: "for_each (dfs fuel nodes) (map fst nodes) ?init = Some final"
    by blast
  have keys: "Cy \<subseteq> fst ` set nodes"
  proof
    fix c assume "c \<in> Cy"
    from pred [OF this] obtain p where p: "c \<in> set (successors nodes p)"
      "(c, p) \<in> (Restr (dependency_edges nodes) Cy)\<^sup>*"
      by blast
    show "c \<in> fst ` set nodes"
    proof (cases "c = p")
      case True
      with p(1) show ?thesis by (auto dest: successors_key)
    next
      case False
      with p(2) obtain y where "(c, y) \<in> Restr (dependency_edges nodes) Cy"
        by (auto elim: converse_rtranclE)
      then have "y \<in> set (successors nodes c)" by (simp add: dependency_edges_def)
      then show ?thesis by (rule successors_key)
    qed
  qed
  from dfs_loop_frame [OF run] have "set (map fst nodes) \<subseteq> visited final" by simp
  with keys nonempty have entered: "Cy \<inter> visited final \<noteq> {}" by auto
  let ?J = "\<lambda>s. set (path s) \<subseteq> visited s \<and> ?closed s \<and> (Cy \<inter> visited s = {} \<or> ?good s)"
  have "?J final"
  proof (rule for_each_invariant [OF run, where I = ?J])
    show "?J ?init" by simp
  next
    fix x and s s' :: dfs_state
    assume J: "?J s" and step: "dfs fuel nodes x s = Some s'"
    from J have pv: "set (path s) \<subseteq> visited s" and cl: "?closed s" by blast+
    from dfs_frame [OF step pv] have f: "path s' = path s" "visited s \<subseteq> visited s'"
      "\<exists>extra. circular_deps s' = circular_deps s @ extra"
      by auto
    from f(1,2) pv have pv': "set (path s') \<subseteq> visited s'" by auto
    from dfs_closed [OF step pv cl] have cl': "?closed s'" .
    have "Cy \<inter> visited s' = {} \<or> ?good s'"
    proof (cases "?good s")
      case True
      with f(3) show ?thesis by auto
    next
      case False
      with J have "Cy \<inter> visited s = {}" by blast
      from dfs_enters_cycle [of Cy Pr nodes, OF pred step pv cl this] show ?thesis by blast
    qed
    with pv' cl' show "?J s'" by blast
  qed
  with entered have "?good final" by blast
  with run show ?thesis
    by (simp add: detect_circular_dependencies_def)
qed

text \<open>
  Claim C7: when two different nodes \<open>a\<close> and \<open>b\<close> of the graph depend on each
  other, \<^verbatim>\<open>detect_circular_dependencies\<close> returns, and one of the cycles it
  reports contains both \<open>a\<close> and \<open>b\<close>, whatever the walk visited before it
  reached them.
\<close>

theorem two_node_cycle_reported:
  assumes "map_of nodes a = Some node_a" and "b \<in> set (dependencies node_a)"
    and "map_of nodes b = Some node_b" and "a \<in> set (dependencies node_b)"
    and "a \<noteq> b" and "length nodes < fuel"
  shows "\<exists>cycles. detect_circular_dependencies fuel nodes = Some cycles \<and>
           (\<exists>cycle \<in> set cycles. a \<in> set cycle \<and> b \<in> set cycle)"
proof -
  have ab: "b \<in> set (successors nodes a)" and ba: "a \<in> set (successors nodes b)"
    using assms(1-4) by (simp_all add: successors_def)
  have "\<exists>p \<in> {a, b}. (p, c) \<in> {(a, b), (b, a)} \<and> c \<in> set (successors nodes p) \<and>
          (c, p) \<in> (Restr (dependency_edges nodes) {a, b})\<^sup>*"
    if "c \<in> {a, b}" for c
  proof -
    have "(a, b) \<in> Restr (dependency_edges nodes) {a, b}"
      and "(b, a) \<in> Restr (dependency_edges nodes) {a, b}"
      using ab ba by (simp_all add: dependency_edges_def)
    with that ab ba show ?thesis by auto
  qed
  from detect_finds_cycle [of "{a, b}" "{(a, b), (b, a)}" nodes fuel, OF this _ assms(6)]
  show ?thesis by auto
qed

theorem two_node_cycle_reported_witness:
  "\<exists>cycles. detect_circular_dependencies 4
       [(''M'', \<lparr>name = ''M'', ident = 1, dependencies = [], dependents = [''S'', ''A'']\<rparr>),
        (''S'', \<lparr>name = ''S'', ident = 3, dependencies = [''M'', ''A''], dependents = [''A'']\<rparr>),
        (''A'', \<lparr>name = ''A'', ident = 2, dependencies = [''M'', ''S''], dependents = [''S'']\<rparr>)]
     = Some cycles \<and>
     (\<exists>cycle \<in> set cycles. ''A'' \<in> set cycle \<and> ''S'' \<in> set cycle)"
  by (rule two_node_cycle_reported
        [where node_a = "\<lparr>name = ''A'', ident = 2, dependencies = [''M'', ''S''], dependents = [''S'']\<rparr>"
           and node_b = "\<lparr>name = ''S'', ident = 3, dependencies = [''M'', ''A''], dependents = [''A'']\<rparr>"])
     simp_all

section \<open>Rejecting an update that closes a cycle\<close>

lemma cycle_component:
  assumes "(c, p) \<in> E\<^sup>*" and "(p, x) \<in> E\<^sup>*" and "(x, c) \<in> E\<^sup>*"
  shows "(c, p) \<in> (Restr E {v. (x, v) \<in> E\<^sup>* \<and> (v, x) \<in> E\<^sup>*})\<^sup>*"
  using assms
proof (induction rule: converse_rtrancl_induct)
  case base
  then show ?case by simp
next
  case (step c y)
  let ?Cy = "{v. (x, v) \<in> E\<^sup>* \<and> (v, x) \<in> E\<^sup>*}"
  from step.prems(2) step.hyps(1) have xy: "(x, y) \<in> E\<^sup>*" by (rule rtrancl_into_rtrancl)
  from step.hyps(2) step.prems(1) have yx: "(y, x) \<in> E\<^sup>*" by (rule rtrancl_trans)
  from step.hyps(1) yx have cx: "(c, x) \<in> E\<^sup>*" by (rule converse_rtrancl_into_rtrancl)
  from step.hyps(1) xy yx cx step.prems(2) have "(c, y) \<in> Restr E ?Cy" by simp
  moreover from step.IH [OF step.prems(1) xy] have "(y, p) \<in> (Restr E ?Cy)\<^sup>*" .
  ultimately show ?case by (rule converse_rtrancl_into_rtrancl)
qed

lemma cyclic_graph_detected:
  assumes cyc: "\<not> acyclic (dependency_edges nodes)" and fuel: "length nodes < fuel"
  shows "\<exists>cycles. detect_circular_dependencies fuel nodes = Some cycles \<and> cycles \<noteq> []"
proof -
  let ?E = "dependency_edges nodes"
  from cyc obtain x where x: "(x, x) \<in> ?E\<^sup>+" by (auto simp: acyclic_def)
  let ?Cy = "{v. (x, v) \<in> ?E\<^sup>* \<and> (v, x) \<in> ?E\<^sup>*}"
  have pred: "\<exists>p \<in> ?Cy. (p, c) \<in> (UNIV :: (string \<times> string) set) \<and> c \<in> set (successors nodes p) \<and>
      (c, p) \<in> (Restr ?E ?Cy)\<^sup>*" if "c \<in> ?Cy" for c
  proof -
    from that have xc: "(x, c) \<in> ?E\<^sup>*" and cx: "(c, x) \<in> ?E\<^sup>*" by simp_all
    from cx x have "(c, x) \<in> ?E\<^sup>+" by (rule rtrancl_trancl_trancl)
    from this xc have "(c, c) \<in> ?E\<^sup>+" by (rule trancl_rtrancl_trancl)
    then obtain p where cp: "(c, p) \<in> ?E\<^sup>*" and pc: "(p, c) \<in> ?E"
      by (auto dest: tranclD2)
    from xc cp have xp: "(x, p) \<in> ?E\<^sup>*" by (rule rtrancl_trans)
    from pc cx have px: "(p, x) \<in> ?E\<^sup>*" by (rule converse_rtrancl_into_rtrancl)
    from cycle_component [OF cp px xc] have "(c, p) \<in> (Restr ?E ?Cy)\<^sup>*" .
    moreover from pc have "c \<in> set (successors nodes p)" by (simp add: dependency_edges_def)
    ultimately show ?thesis using xp px by blast
  qed
  have "?Cy \<noteq> {}" by blast
  from detect_finds_cycle [of ?Cy UNIV nodes fuel, OF pred this fuel]
  show ?thesis by auto
qed

lemma length_populate_dependents: "length (populate_dependents nodes) = length nodes"
  using keys_populate_dependents [of nodes] by (metis length_map)

lemma length_update_le: "length (AList.update k v al) \<le> Suc (length al)"
  by (induction al) auto

lemma length_build_fold:
  "length (fold (\<lambda>agent nodes. AList.update (agent_name agent) (mk agent) nodes) xs g)
     \<le> length g + length xs"
proof (induction xs arbitrary: g)
  case Nil
  then show ?case by simp
next
  case (Cons x xs)
  have "length (fold (\<lambda>agent nodes. AList.update (agent_name agent) (mk agent) nodes) xs
                  (AList.update (agent_name x) (mk x) g))
          \<le> length (AList.update (agent_name x) (mk x) g) + length xs"
    by (rule Cons.IH)
  also have "\<dots> \<le> Suc (length g) + length xs"
    using length_update_le [of "agent_name x" "mk x" g] by simp
  finally show ?case by simp
qed

lemma length_graph_le: "length (get_dependency_graph db) \<le> length db"
proof -
  have "length (get_dependency_graph db) = length (build_nodes (eligible_agents db))"
    by (simp add: get_dependency_graph_def length_populate_dependents)
  also have "\<dots> \<le> length (eligible_agents db)"
    unfolding build_nodes_def using length_build_fold [of _ "eligible_agents db" "[]"] by simp
  also have "\<dots> \<le> length db"
    by (simp add: eligible_agents_def)
  finally show ?thesis .
qed

lemma length_test_graph:
  assumes "map_of nodes agent = Some node"
  shows "length (test_graph nodes agent node new_dependencies) = length nodes"
proof -
  from assms have "agent \<in> fst ` set nodes"
    by (force dest: map_of_SomeD)
  then have "map fst (AList.update agent (node\<lparr>dependencies := new_dependencies\<rparr>) nodes)
               = map fst nodes"
    by (simp add: update_keys)
  then have "length (AList.update agent (node\<lparr>dependencies := new_dependencies\<rparr>) nodes)
               = length nodes"
    by (metis length_map)
  then show ?thesis
    by (simp add: test_graph_def length_populate_dependents)
qed

text \<open>
  Claim C3, as the code has it: for an agent of the graph and a proposed dependency
  list whose adoption gives the graph a cycle, \<^verbatim>\<open>update_agent_dependencies\<close>
  returns a failure and leaves the agent table as it was, so the stored dependency
  list of the agent is unchanged. The failure reports the circular dependencies,
  unless the agent is the coordinator: a non-empty list for the coordinator is refused
  before any graph is built, with the coordinator's own error.
\<close>

theorem cyclic_update_rejected:
  assumes "map_of (get_dependency_graph db) agent = Some node"
    and "\<not> acyclic (dependency_edges
                      (test_graph (get_dependency_graph db) agent node new_dependencies))"
    and "length db < fuel"
  shows "\<exists>res. update_agent_dependencies fuel commit db agent new_dependencies = Some (res, db) \<and>
           (if lower agent = ''coordinator'' \<and> new_dependencies \<noteq> []
            then res = UpdateError
              ''The coordinator agent cannot have dependencies. It must coordinate all other agents independently.''
            else \<exists>cycles. cycles \<noteq> [] \<and>
                   res = CircularError ''Update would create circular dependencies'' cycles)"
proof (cases "lower agent = ''coordinator'' \<and> new_dependencies \<noteq> []")
  case True
  then show ?thesis by (simp add: update_agent_dependencies_def)
next
  case False
  have "length (test_graph (get_dependency_graph db) agent node new_dependencies) < fuel"
    using length_test_graph [OF assms(1)] length_graph_le [of db] assms(3) by simp
  from cyclic_graph_detected [OF assms(2) this] obtain cycles where
    "detect_circular_dependencies fuel
       (test_graph (get_dependency_graph db) agent node new_dependencies) = Some cycles"
    "cycles \<noteq> []"
    by blast
  with False assms(1) show ?thesis
    by (auto simp: update_agent_dependencies_def)
qed

lemma demo_test_graph:
  "test_graph
     [(''M'', \<lparr>name = ''M'', ident = 1, dependencies = [], dependents = [''A'', ''S'']\<rparr>),
      (''A'', \<lparr>name = ''A'', ident = 2, dependencies = [''M''], dependents = [''S'']\<rparr>),
      (''S'', \<lparr>name = ''S'', ident = 3, dependencies = [''M'', ''A''], dependents = []\<rparr>)]
     ''A'' \<lparr>name = ''A'', ident = 2, dependencies = [''M''], dependents = [''S'']\<rparr> [''M'', ''S'']
   = [(''M'', \<lparr>name = ''M'', ident = 1, dependencies = [], dependents = [''A'', ''S'']\<rparr>),
      (''A'', \<lparr>name = ''A'', ident = 2, dependencies = [''M'', ''S''], dependents = [''S'']\<rparr>),
      (''S'', \<lparr>name = ''S'', ident = 3, dependencies = [''M'', ''A''], dependents = [''A'']\<rparr>)]"
  by (simp add: test_graph_def populate_dependents_def add_dependent_def)

lemma mutual_dependency_cyclic:
  assumes "b \<in> set (successors nodes a)" and "a \<in> set (successors nodes b)"
  shows "\<not> acyclic (dependency_edges nodes)"
proof -
  from assms have "(a, b) \<in> dependency_edges nodes" "(b, a) \<in> dependency_edges nodes"
    by (simp_all add: dependency_edges_def)
  then have "(a, a) \<in> (dependency_edges nodes)\<^sup>+" by (rule trancl_into_trancl [OF r_into_trancl])
  then show ?thesis by (auto simp: acyclic_def)
qed

theorem cyclic_update_rejected_witness:
  "\<exists>res. update_agent_dependencies 4 None
       [\<lparr>agent_id = 1, agent_name = ''M'', agent_status = INACTIVE, agent_dependencies = Some []\<rparr>,
        \<lparr>agent_id = 2, agent_name = ''A'', agent_status = INACTIVE, agent_dependencies = Some [''M'']\<rparr>,
        \<lparr>agent_id = 3, agent_name = ''S'', agent_status = RUNNING,
          agent_dependencies = Some [''M'', ''A'']\<rparr>] ''A'' [''M'', ''S'']
     = Some (res,
       [\<lparr>agent_id = 1, agent_name = ''M'', agent_status = INACTIVE, agent_dependencies = Some []\<rparr>,
        \<lparr>agent_id = 2, agent_name = ''A'', agent_status = INACTIVE, agent_dependencies = Some [''M'']\<rparr>,
        \<lparr>agent_id = 3, agent_name = ''S'', agent_status = RUNNING,
          agent_dependencies = Some [''M'', ''A'']\<rparr>]) \<and>
     (\<exists>cycles. cycles \<noteq> [] \<and>
        res = CircularError ''Update would create circular dependencies'' cycles)"
proof -
  have "\<not> acyclic (dependency_edges
     [(''M'', \<lparr>name = ''M'', ident = 1, dependencies = [], dependents = [''A'', ''S'']\<rparr>),
      (''A'', \<lparr>name = ''A'', ident = 2, dependencies = [''M'', ''S''], dependents = [''S'']\<rparr>),
      (''S'', \<lparr>name = ''S'', ident = 3, dependencies = [''M'', ''A''], dependents = [''A'']\<rparr>)])"
    by (rule mutual_dependency_cyclic [of "''S''" _ "''A''"]) (simp_all add: successors_def)
  from cyclic_update_rejected
    [of "[\<lparr>agent_id = 1, agent_name = ''M'', agent_status = INACTIVE, agent_dependencies = Some []\<rparr>,
        \<lparr>agent_id = 2, agent_name = ''A'', agent_status = INACTIVE, agent_dependencies = Some [''M'']\<rparr>,
        \<lparr>agent_id = 3, agent_name = ''S'', agent_status = RUNNING,
          agent_dependencies = Some [''M'', ''A'']\<rparr>]" "''A''"
        "\<lparr>name = ''A'', ident = 2, dependencies = [''M''], dependents = [''S'']\<rparr>"
        "[''M'', ''S'']" 4 None, unfolded demo_graph demo_test_graph, OF _ this]
  show ?thesis by (simp add: lower_def)
qed

text \<open>
  Claim C3 as stated fails for the coordinator: giving it the dependency \<open>A\<close>,
  where \<open>A\<close> depends on the coordinator, would close a cycle, and the failure
  returned does not report circular dependencies.
\<close>

theorem coordinator_update_counterexample:
  "\<not> acyclic (dependency_edges
      (test_graph
         (get_dependency_graph
            [\<lparr>agent_id = 1, agent_name = ''coordinator'', agent_status = INACTIVE,
               agent_dependencies = Some []\<rparr>,
             \<lparr>agent_id = 2, agent_name = ''A'', agent_status = INACTIVE,
               agent_dependencies = Some [''coordinator'']\<rparr>])
         ''coordinator''
         \<lparr>name = ''coordinator'', ident = 1, dependencies = [], dependents = [''A'']\<rparr> [''A''])) \<and>
   update_agent_dependencies 3 None
     [\<lparr>agent_id = 1, agent_name = ''coordinator'', agent_status = INACTIVE,
        agent_dependencies = Some []\<rparr>,
      \<lparr>agent_id = 2, agent_name = ''A'', agent_status = INACTIVE,
        agent_dependencies = Some [''coordinator'']\<rparr>]
     ''coordinator'' [''A'']
   = Some (UpdateError
       ''The coordinator agent cannot have dependencies. It must coordinate all other agents independently.'',
     [\<lparr>agent_id = 1, agent_name = ''coordinator'', agent_status = INACTIVE,
        agent_dependencies = Some []\<rparr>,
      \<lparr>agent_id = 2, agent_name = ''A'', agent_status = INACTIVE,
        agent_dependencies = Some [''coordinator'']\<rparr>])"
proof
  have g: "test_graph
         (get_dependency_graph
            [\<lparr>agent_id = 1, agent_name = ''coordinator'', agent_status = INACTIVE,
               agent_dependencies = Some []\<rparr>,
             \<lparr>agent_id = 2, agent_name = ''A'', agent_status = INACTIVE,
               agent_dependencies = Some [''coordinator'']\<rparr>])
         ''coordinator''
         \<lparr>name = ''coordinator'', ident = 1, dependencies = [], dependents = [''A'']\<rparr> [''A'']
     = [(''coordinator'',
          \<lparr>name = ''coordinator'', ident = 1, dependencies = [''A''], dependents = [''A'']\<rparr>),
        (''A'', \<lparr>name = ''A'', ident = 2, dependencies = [''coordinator''],
                dependents = [''coordinator'']\<rparr>)]"
    by (simp add: get_dependency_graph_def populate_dependents_def build_nodes_def
          eligible_agents_def deps_or_empty_def add_dependent_def test_graph_def)
  show "\<not> acyclic (dependency_edges
      (test_graph
         (get_dependency_graph
            [\<lparr>agent_id = 1, agent_name = ''coordinator'', agent_status = INACTIVE,
               agent_dependencies = Some []\<rparr>,
             \<lparr>agent_id = 2, agent_name = ''A'', agent_status = INACTIVE,
               agent_dependencies = Some [''coordinator'']\<rparr>])
         ''coordinator''
         \<lparr>name = ''coordinator'', ident = 1, dependencies = [], dependents = [''A'']\<rparr> [''A'']))"
    unfolding g
    by (rule mutual_dependency_cyclic [of "''A''" _ "''coordinator''"]) (simp_all add: successors_def)
  show "update_agent_dependencies 3 None
     [\<lparr>agent_id = 1, agent_name = ''coordinator'', agent_status = INACTIVE,
        agent_dependencies = Some []\<rparr>,
      \<lparr>agent_id = 2, agent_name = ''A'', agent_status = INACTIVE,
        agent_dependencies = Some [''coordinator'']\<rparr>]
     ''coordinator'' [''A'']
   = Some (UpdateError
       ''The coordinator agent cannot have dependencies. It must coordinate all other agents independently.'',
     [\<lparr>agent_id = 1, agent_name = ''coordinator'', agent_status = INACTIVE,
        agent_dependencies = Some []\<rparr>,
      \<lparr>agent_id = 2, agent_name = ''A'', agent_status = INACTIVE,
        agent_dependencies = Some [''coordinator'']\<rparr>])"
    by (simp add: update_agent_dependencies_def lower_def lower_char_def)
qed

text \<open>
  The graph that was fetched and the graph that is tested share their node objects, so
  on success the ``previous'' dependencies that are reported are the new ones.
\<close>

lemma test_graph_target:
  "\<exists>n. map_of (test_graph nodes agent node new_dependencies) agent = Some n \<and>
       dependencies n = new_dependencies"
  by (simp add: test_graph_def map_of_populate_dependents map_of_map update_conv')

lemma update_success_previous_dependencies:
  assumes "update_agent_dependencies fuel commit db agent new_dependencies
             = Some (UpdateSuccess updated previous, db')"
  shows "updated = new_dependencies \<and> previous = new_dependencies"
proof -
  obtain node where node: "map_of (get_dependency_graph db) agent = Some node"
    using assms by (auto simp: update_agent_dependencies_def split: if_splits option.splits)
  from test_graph_target [of "get_dependency_graph db" agent node new_dependencies]
  obtain n where "map_of (test_graph (get_dependency_graph db) agent node new_dependencies) agent
      = Some n" "dependencies n = new_dependencies"
    by blast
  with assms node show ?thesis
    by (auto simp: update_agent_dependencies_def split: if_splits option.splits)
qed

section \<open>The cascade deletion order\<close>

lemma add_to_order_Suc:
  "add_to_order (Suc fuel) nodes affected a st =
     (if a \<in> processed st \<or> a \<notin> affected then Some st
      else map_option
             (\<lambda>s. if a \<notin> processed s
                  then s\<lparr>del_order := del_order s @ [a], processed := insert a (processed s)\<rparr>
                  else s)
             (for_each
                (\<lambda>d s. if d \<in> affected then add_to_order fuel nodes affected d s else Some s)
                (dependents_of nodes a) st))"
  by (auto simp: dependents_of_def split: option.splits)

declare add_to_order.simps(2) [simp del]

lemma for_each_covers:
  assumes "for_each body xs st = Some st'" and "I st"
    and step: "\<And>x s s'. I s \<Longrightarrow> body x s = Some s' \<Longrightarrow> I s' \<and> R x s'"
    and mono: "\<And>x y s s'. I s \<Longrightarrow> body x s = Some s' \<Longrightarrow> R y s \<Longrightarrow> R y s'"
  shows "I st' \<and> (\<forall>x \<in> set xs. R x st')"
  using assms(1,2)
proof (induction xs arbitrary: st)
  case Nil
  then show ?case by simp
next
  case (Cons x xs)
  from Cons.prems(1) obtain s1 where s1: "body x st = Some s1" "for_each body xs s1 = Some st'"
    by (auto split: option.splits)
  from step [OF Cons.prems(2) s1(1)] have I1: "I s1" and R1: "R x s1" by simp_all
  from Cons.IH [OF s1(2) I1] have IH: "I st' \<and> (\<forall>y \<in> set xs. R y st')" .
  have "I st' \<and> R x st'"
  proof (rule for_each_invariant [OF s1(2), where I = "\<lambda>s. I s \<and> R x s"])
    show "I s1 \<and> R x s1" using I1 R1 by simp
  next
    fix y s s'
    assume "I s \<and> R x s" "body y s = Some s'"
    with step [of s y s'] mono [of s y s' x] show "I s' \<and> R x s'" by blast
  qed
  with IH show ?case by simp
qed

lemma takeWhile_snoc_old:
  "y \<in> set xs \<Longrightarrow> takeWhile (\<lambda>z. z \<noteq> y) (xs @ [a]) = takeWhile (\<lambda>z. z \<noteq> y) xs"
  by (induction xs) auto

lemma takeWhile_snoc_new:
  "a \<notin> set xs \<Longrightarrow> takeWhile (\<lambda>z. z \<noteq> a) (xs @ [a]) = xs"
  by (induction xs) auto

lemma add_to_order_inv:
  "add_to_order fuel nodes affected a st = Some st' \<Longrightarrow>
   set (del_order st) = processed st \<and> distinct (del_order st) \<and>
   set (del_order st) \<subseteq> affected \<and>
   (\<forall>y \<in> set (del_order st). \<forall>x \<in> set (dependents_of nodes y).
      x \<in> affected \<longrightarrow> x \<in> set (takeWhile (\<lambda>z. z \<noteq> y) (del_order st))) \<Longrightarrow>
   (set (del_order st') = processed st' \<and> distinct (del_order st') \<and>
    set (del_order st') \<subseteq> affected \<and>
    (\<forall>y \<in> set (del_order st'). \<forall>x \<in> set (dependents_of nodes y).
       x \<in> affected \<longrightarrow> x \<in> set (takeWhile (\<lambda>z. z \<noteq> y) (del_order st')))) \<and>
   processed st \<subseteq> processed st' \<and> (a \<in> affected \<longrightarrow> a \<in> processed st')"
proof (induction fuel arbitrary: a st st')
  case 0
  then show ?case by simp
next
  case (Suc fuel)
  let ?Inv = "\<lambda>s :: order_state.
    set (del_order s) = processed s \<and> distinct (del_order s) \<and>
    set (del_order s) \<subseteq> affected \<and>
    (\<forall>y \<in> set (del_order s). \<forall>x \<in> set (dependents_of nodes y).
       x \<in> affected \<longrightarrow> x \<in> set (takeWhile (\<lambda>z. z \<noteq> y) (del_order s)))"
  let ?body = "\<lambda>d s. if d \<in> affected then add_to_order fuel nodes affected d s else Some s"
  show ?case
  proof (cases "a \<in> processed st \<or> a \<notin> affected")
    case True
    with Suc.prems(1) have "st' = st" by (simp add: add_to_order_Suc)
    with True Suc.prems(2) show ?thesis by blast
  next
    case False
    with Suc.prems(1) obtain s2 where
      loop: "for_each ?body (dependents_of nodes a) st = Some s2"
      and st': "st' = (if a \<notin> processed s2
                       then s2\<lparr>del_order := del_order s2 @ [a], processed := insert a (processed s2)\<rparr>
                       else s2)"
      by (auto simp: add_to_order_Suc)
    let ?I = "\<lambda>s. ?Inv s \<and> processed st \<subseteq> processed s"
    let ?R = "\<lambda>x (s :: order_state). x \<in> affected \<longrightarrow> x \<in> processed s"
    have after: "?I s2 \<and> (\<forall>x \<in> set (dependents_of nodes a). ?R x s2)"
    proof (rule for_each_covers [OF loop, where I = ?I and R = ?R])
      show "?I st" using Suc.prems(2) by blast
    next
      fix x and s s' :: order_state
      assume I: "?I s" and step: "?body x s = Some s'"
      show "?I s' \<and> ?R x s'"
      proof (cases "x \<in> affected")
        case True
        with step have "add_to_order fuel nodes affected x s = Some s'" by simp
        from Suc.IH [OF this] I True show ?thesis by blast
      next
        case False
        with step have "s' = s" by simp
        with I False show ?thesis by blast
      qed
    next
      fix x y and s s' :: order_state
      assume I: "?I s" and step: "?body x s = Some s'" and R: "?R y s"
      have "processed s \<subseteq> processed s'"
      proof (cases "x \<in> affected")
        case True
        with step have "add_to_order fuel nodes affected x s = Some s'" by simp
        from Suc.IH [OF this] I show ?thesis by blast
      next
        case False
        with step show ?thesis by simp
      qed
      with R show "?R y s'" by blast
    qed
    then have inv2: "?Inv s2" and grow: "processed st \<subseteq> processed s2"
      and kids: "\<forall>x \<in> set (dependents_of nodes a). x \<in> affected \<longrightarrow> x \<in> processed s2"
      by blast+
    show ?thesis
    proof (cases "a \<in> processed s2")
      case True
      with st' have "st' = s2" by simp
      with inv2 grow True show ?thesis by blast
    next
      case new: False
      let ?xs = "del_order s2"
      from new st' have st'': "del_order st' = ?xs @ [a]" "processed st' = insert a (processed s2)"
        by simp_all
      from inv2 have set2: "set ?xs = processed s2" and dist2: "distinct ?xs"
        and sub2: "set ?xs \<subseteq> affected"
        and ord2: "\<forall>y \<in> set ?xs. \<forall>x \<in> set (dependents_of nodes y).
                     x \<in> affected \<longrightarrow> x \<in> set (takeWhile (\<lambda>z. z \<noteq> y) ?xs)"
        by blast+
      from new set2 have fresh: "a \<notin> set ?xs" by simp
      have "\<forall>y \<in> set (?xs @ [a]). \<forall>x \<in> set (dependents_of nodes y).
              x \<in> affected \<longrightarrow> x \<in> set (takeWhile (\<lambda>z. z \<noteq> y) (?xs @ [a]))"
      proof (intro ballI impI)
        fix y x
        assume y: "y \<in> set (?xs @ [a])" and x: "x \<in> set (dependents_of nodes y)" "x \<in> affected"
        show "x \<in> set (takeWhile (\<lambda>z. z \<noteq> y) (?xs @ [a]))"
        proof (cases "y \<in> set ?xs")
          case True
          with ord2 x show ?thesis by (simp add: takeWhile_snoc_old)
        next
          case False
          with y have "y = a" by simp
          with kids x set2 fresh show ?thesis by (simp add: takeWhile_snoc_new)
        qed
      qed
      with st'' set2 dist2 sub2 fresh False grow show ?thesis by auto
    qed
  qed
qed

lemma add_to_order_returns:
  assumes edges: "\<And>a d. d \<in> set (dependents_of nodes a) \<Longrightarrow> (a, d) \<in> Rd"
    and acyc: "acyclic Rd" and fin: "finite Rd"
  shows "card (Rd\<^sup>+ `` {a}) < fuel \<Longrightarrow> \<exists>st'. add_to_order fuel nodes affected a st = Some st'"
proof (induction fuel arbitrary: a st)
  case 0
  then show ?case by simp
next
  case (Suc fuel)
  let ?body = "\<lambda>d s. if d \<in> affected then add_to_order fuel nodes affected d s else Some s"
  have "\<exists>s2. for_each ?body (dependents_of nodes a) st = Some s2 \<and> True"
  proof (rule for_each_total [where I = "\<lambda>_. True"])
    show True ..
  next
    fix x and s :: order_state
    assume x: "x \<in> set (dependents_of nodes a)"
    from edges [OF x] have ax: "(a, x) \<in> Rd" .
    have "Rd\<^sup>+ `` {x} \<subseteq> Rd\<^sup>+ `` {a}"
      using ax by (auto intro: trancl_into_trancl2)
    moreover have "x \<in> Rd\<^sup>+ `` {a}" using ax by auto
    moreover have "x \<notin> Rd\<^sup>+ `` {x}" using acyc by (auto simp: acyclic_def)
    ultimately have "Rd\<^sup>+ `` {x} \<subset> Rd\<^sup>+ `` {a}" by blast
    moreover have "finite (Rd\<^sup>+ `` {a})"
      using fin by (simp add: finite_Image)
    ultimately have "card (Rd\<^sup>+ `` {x}) < card (Rd\<^sup>+ `` {a})"
      by (simp add: psubset_card_mono)
    with Suc.prems have "card (Rd\<^sup>+ `` {x}) < fuel" by simp
    from Suc.IH [OF this, of s] show "\<exists>s'. ?body x s = Some s' \<and> True" by simp
  qed
  then show ?case by (auto simp: add_to_order_Suc)
qed

lemma successors_node:
  "b \<in> set (successors nodes a) \<Longrightarrow>
   \<exists>node. map_of nodes a = Some node \<and> b \<in> set (dependencies node)"
  by (cases "map_of nodes a") (auto simp: successors_def)

lemma dependents_of_node:
  "d \<in> set (dependents_of nodes a) \<Longrightarrow>
   \<exists>node. map_of nodes a = Some node \<and> d \<in> set (dependents node)"
  by (cases "map_of nodes a") (auto simp: dependents_of_def)

lemma finite_dependency_edges: "finite (dependency_edges nodes)"
proof -
  have "dependency_edges nodes
          \<subseteq> fst ` set nodes \<times> (\<Union>(k, node) \<in> set nodes. set (dependencies node))"
  proof
    fix e assume e: "e \<in> dependency_edges nodes"
    obtain a b where ab: "e = (a, b)" by (cases e)
    with e have b: "b \<in> set (successors nodes a)" by (simp add: dependency_edges_def)
    then obtain node where node: "map_of nodes a = Some node" "b \<in> set (dependencies node)"
      by (auto dest: successors_node)
    from node(1) have "(a, node) \<in> set nodes" by (rule map_of_SomeD)
    with node(2) ab show "e \<in> fst ` set nodes \<times> (\<Union>(k, node) \<in> set nodes. set (dependencies node))"
      by force
  qed
  moreover have "finite (fst ` set nodes \<times> (\<Union>(k, node) \<in> set nodes. set (dependencies node)))"
    by auto
  ultimately show ?thesis by (rule finite_subset)
qed

lemma graph_dependents_edges:
  assumes "d \<in> set (dependents_of (get_dependency_graph db) a)"
  shows "(d, a) \<in> dependency_edges (get_dependency_graph db)"
proof -
  from assms obtain node where node: "map_of (get_dependency_graph db) a = Some node"
    "d \<in> set (dependents node)"
    by (auto dest: dependents_of_node)
  from graph_dependents_iff [OF node(1), of d] node(2) obtain m where
    "map_of (get_dependency_graph db) d = Some m" "a \<in> set (dependencies m)"
    by blast
  then show ?thesis by (simp add: dependency_edges_def successors_def)
qed

lemma graph_edges_dependents:
  assumes "(d, a) \<in> dependency_edges (get_dependency_graph db)"
  shows "d \<in> set (dependents_of (get_dependency_graph db) a)"
proof -
  from assms obtain m where m: "map_of (get_dependency_graph db) d = Some m"
    "a \<in> set (dependencies m)"
    by (auto simp: dependency_edges_def dest: successors_node)
  from graph_dependencies_closed [OF m(1)] m(2)
  have "a \<in> set (map fst (get_dependency_graph db))" by blast
  then obtain node where node: "map_of (get_dependency_graph db) a = Some node"
    by (metis map_of_eq_None_iff not_Some_eq set_map)
  from graph_dependents_iff [OF node, of d] m have "d \<in> set (dependents node)" by blast
  with node show ?thesis by (simp add: dependents_of_def)
qed

lemma cascade_order_returns:
  assumes acyc: "acyclic (dependency_edges (get_dependency_graph db))"
    and fuel: "length db < fuel"
  shows "\<exists>final. for_each (add_to_order fuel (get_dependency_graph db) affected) iteration_order
                   \<lparr>del_order = [], processed = {}\<rparr> = Some final"
proof -
  let ?G = "get_dependency_graph db"
  let ?Rd = "(dependency_edges ?G)\<inverse>"
  have edges: "(a, d) \<in> ?Rd" if "d \<in> set (dependents_of ?G a)" for a d
    using graph_dependents_edges [OF that] by simp
  have acyc': "acyclic ?Rd" using acyc by simp
  have fin: "finite ?Rd" by (simp add: finite_dependency_edges)
  have bound: "card (?Rd\<^sup>+ `` {a}) < fuel" for a
  proof -
    have "?Rd\<^sup>+ `` {a} \<subseteq> fst ` set ?G"
    proof
      fix y assume "y \<in> ?Rd\<^sup>+ `` {a}"
      then have "y \<in> Range (?Rd\<^sup>+)" by blast
      then have "y \<in> Domain (dependency_edges ?G)" by simp
      then obtain z where "z \<in> set (successors ?G y)"
        by (auto simp: dependency_edges_def)
      then show "y \<in> fst ` set ?G" by (rule successors_key)
    qed
    then have "card (?Rd\<^sup>+ `` {a}) \<le> card (fst ` set ?G)"
      by (simp add: card_mono)
    also have "\<dots> \<le> length ?G"
      by (metis card_image_le card_length le_trans List.finite_set)
    also have "\<dots> \<le> length db" by (rule length_graph_le)
    finally show ?thesis using fuel by simp
  qed
  have "\<exists>final. for_each (add_to_order fuel ?G affected) iteration_order
                   \<lparr>del_order = [], processed = {}\<rparr> = Some final \<and> True"
  proof (rule for_each_total [where I = "\<lambda>_. True"])
    show True ..
  next
    fix x and s :: order_state
    from add_to_order_returns [of ?G ?Rd x fuel affected s, OF edges acyc' fin bound]
    show "\<exists>s'. add_to_order fuel ?G affected x s = Some s' \<and> True" by simp
  qed
  then show ?thesis by blast
qed

lemma cascade_order_valid:
  assumes run: "for_each (add_to_order fuel nodes affected) iteration_order
                  \<lparr>del_order = [], processed = {}\<rparr> = Some final"
  shows "distinct (del_order final) \<and>
         (\<forall>y \<in> set (del_order final). \<forall>x \<in> set (dependents_of nodes y).
            x \<in> set (del_order final) \<longrightarrow>
            (\<exists>pre mid post. del_order final = pre @ x # mid @ y # post))"
proof -
  let ?Inv = "\<lambda>s :: order_state.
    set (del_order s) = processed s \<and> distinct (del_order s) \<and>
    set (del_order s) \<subseteq> affected \<and>
    (\<forall>y \<in> set (del_order s). \<forall>x \<in> set (dependents_of nodes y).
       x \<in> affected \<longrightarrow> x \<in> set (takeWhile (\<lambda>z. z \<noteq> y) (del_order s)))"
  have inv: "?Inv final"
  proof (rule for_each_invariant [OF run, where I = ?Inv])
    show "?Inv \<lparr>del_order = [], processed = {}\<rparr>" by simp
  next
    fix x and s s' :: order_state
    assume "?Inv s" and "add_to_order fuel nodes affected x s = Some s'"
    from add_to_order_inv [OF this(2) this(1)] show "?Inv s'" by blast
  qed
  have "\<exists>pre mid post. del_order final = pre @ x # mid @ y # post"
    if y: "y \<in> set (del_order final)" and x: "x \<in> set (dependents_of nodes y)"
      "x \<in> set (del_order final)" for x y
  proof -
    from inv x have "x \<in> affected" by blast
    with inv y x(1) have "x \<in> set (takeWhile (\<lambda>z. z \<noteq> y) (del_order final))" by blast
    then obtain pre mid where tw: "takeWhile (\<lambda>z. z \<noteq> y) (del_order final) = pre @ x # mid"
      by (auto dest: split_list)
    from y have "dropWhile (\<lambda>z. z \<noteq> y) (del_order final) \<noteq> []" by simp
    then obtain h post where dw: "dropWhile (\<lambda>z. z \<noteq> y) (del_order final) = h # post"
      by (cases "dropWhile (\<lambda>z. z \<noteq> y) (del_order final)") auto
    from dw have "h = y" by (metis (mono_tags, lifting) hd_dropWhile list.sel(1) list.simps(3))
    have "del_order final = takeWhile (\<lambda>z. z \<noteq> y) (del_order final)
            @ dropWhile (\<lambda>z. z \<noteq> y) (del_order final)"
      by simp
    with tw dw \<open>h = y\<close> have "del_order final = pre @ x # mid @ y # post" by simp
    then show ?thesis by blast
  qed
  with inv show ?thesis by blast
qed

text \<open>
  Claim C4: for a graph without cycles and a target agent with at least one dependent,
  \<^verbatim>\<open>analyze_deletion_impact\<close> returns a plan whose deletion order lists no
  agent twice and is topologically valid: whenever \<open>x\<close> and \<open>y\<close> are both in
  the order and \<open>x\<close> depends on \<open>y\<close>, \<open>x\<close> stands strictly before \<open>y\<close>.
  This holds for every order in which the set of affected agents is iterated.
\<close>

theorem deletion_order_topological:
  assumes "acyclic (dependency_edges (get_dependency_graph db))"
    and "map_of (get_dependency_graph db) agent = Some node" and "dependents node \<noteq> []"
    and "length db < fuel"
  shows "\<exists>plan. analyze_deletion_impact fuel iteration_order db agent = Some plan \<and>
           distinct (deletion_order plan) \<and>
           (\<forall>x y. x \<in> set (deletion_order plan) \<and> y \<in> set (deletion_order plan) \<and>
                  (x, y) \<in> dependency_edges (get_dependency_graph db) \<longrightarrow>
                  (\<exists>pre mid post. deletion_order plan = pre @ x # mid @ y # post))"
proof -
  let ?G = "get_dependency_graph db"
  let ?aff = "collect_affected ?G [agent] {}"
  from cascade_order_returns [OF assms(1,4), of ?aff iteration_order] obtain final where
    run: "for_each (add_to_order fuel ?G ?aff) iteration_order
            \<lparr>del_order = [], processed = {}\<rparr> = Some final"
    by blast
  from cascade_order_valid [OF run] have valid: "distinct (del_order final)"
    "\<forall>y \<in> set (del_order final). \<forall>x \<in> set (dependents_of ?G y).
       x \<in> set (del_order final) \<longrightarrow>
       (\<exists>pre mid post. del_order final = pre @ x # mid @ y # post)"
    by blast+
  from run have order: "calculate_cascade_deletion_order fuel iteration_order agent ?G
      = Some (del_order final)"
    by (simp add: calculate_cascade_deletion_order_def)
  let ?plan = "\<lparr>target_agent = agent, can_delete_safely = False,
                dependent_agents = dependents node,
                cascade_deletion_required = True, deletion_order = del_order final,
                warnings =
                  (if length (del_order final) > 5
                   then [''Cascade deletion would affect '' @
                         str_nat (length (del_order final)) @ '' agents'']
                   else [])\<rparr>"
  from assms(2,3) order have "analyze_deletion_impact fuel iteration_order db agent = Some ?plan"
    by (simp add: analyze_deletion_impact_def)
  moreover have "distinct (deletion_order ?plan)" using valid(1) by simp
  moreover have "\<exists>pre mid post. deletion_order ?plan = pre @ x # mid @ y # post"
    if "x \<in> set (deletion_order ?plan)" "y \<in> set (deletion_order ?plan)"
      "(x, y) \<in> dependency_edges ?G" for x y
    using that valid(2) graph_edges_dependents [of x y db] by simp
  ultimately show ?thesis by blast
qed

lemma demo_graph_acyclic:
  "acyclic (dependency_edges
     [(''M'', \<lparr>name = ''M'', ident = 1, dependencies = [], dependents = [''A'', ''S'']\<rparr>),
      (''A'', \<lparr>name = ''A'', ident = 2, dependencies = [''M''], dependents = [''S'']\<rparr>),
      (''S'', \<lparr>name = ''S'', ident = 3, dependencies = [''M'', ''A''], dependents = []\<rparr>)])"
  by (rule acyclicI_order [where f = "\<lambda>a. if a = ''S'' then 2 else if a = ''A'' then 1 else (0::nat)"])
     (auto simp: dependency_edges_def successors_def split: if_splits)

theorem deletion_order_topological_witness:
  "\<exists>plan. analyze_deletion_impact 4 [''A'', ''M'', ''S'']
       [\<lparr>agent_id = 1, agent_name = ''M'', agent_status = INACTIVE, agent_dependencies = Some []\<rparr>,
        \<lparr>agent_id = 2, agent_name = ''A'', agent_status = INACTIVE, agent_dependencies = Some [''M'']\<rparr>,
        \<lparr>agent_id = 3, agent_name = ''S'', agent_status = RUNNING,
          agent_dependencies = Some [''M'', ''A'']\<rparr>] ''M'' = Some plan \<and>
     distinct (deletion_order plan) \<and>
     (\<forall>x y. x \<in> set (deletion_order plan) \<and> y \<in> set (deletion_order plan) \<and>
            (x, y) \<in> dependency_edges
              [(''M'', \<lparr>name = ''M'', ident = 1, dependencies = [], dependents = [''A'', ''S'']\<rparr>),
               (''A'', \<lparr>name = ''A'', ident = 2, dependencies = [''M''], dependents = [''S'']\<rparr>),
               (''S'', \<lparr>name = ''S'', ident = 3, dependencies = [''M'', ''A''], dependents = []\<rparr>)] \<longrightarrow>
            (\<exists>pre mid post. deletion_order plan = pre @ x # mid @ y # post))"
  using deletion_order_topological
    [of "[\<lparr>agent_id = 1, agent_name = ''M'', agent_status = INACTIVE, agent_dependencies = Some []\<rparr>,
        \<lparr>agent_id = 2, agent_name = ''A'', agent_status = INACTIVE, agent_dependencies = Some [''M'']\<rparr>,
        \<lparr>agent_id = 3, agent_name = ''S'', agent_status = RUNNING,
          agent_dependencies = Some [''M'', ''A'']\<rparr>]" "''M''"
        "\<lparr>name = ''M'', ident = 1, dependencies = [], dependents = [''A'', ''S'']\<rparr>"
        4 "[''A'', ''M'', ''S'']", unfolded demo_graph, OF demo_graph_acyclic]
  by simp

lemma demo_deletion_plan:
  "analyze_deletion_impact 4 [''A'', ''M'', ''S'']
       [\<lparr>agent_id = 1, agent_name = ''M'', agent_status = INACTIVE, agent_dependencies = Some []\<rparr>,
        \<lparr>agent_id = 2, agent_name = ''A'', agent_status = INACTIVE, agent_dependencies = Some [''M'']\<rparr>,
        \<lparr>agent_id = 3, agent_name = ''S'', agent_status = RUNNING,
          agent_dependencies = Some [''M'', ''A'']\<rparr>] ''M''
   = Some \<lparr>target_agent = ''M'', can_delete_safely = False, dependent_agents = [''A'', ''S''],
           cascade_deletion_required = True, deletion_order = [''S'', ''A'', ''M''],
           warnings = []\<rparr>"
  by (simp add: analyze_deletion_impact_def demo_graph calculate_cascade_deletion_order_def
        collect_affected.simps add_to_order_Suc dependents_of_def eval_nat_numeral)

end
